theory Spec2Isabelle
  imports Complex_Main "HOL-Library.AList"
begin

section \<open>Errors and Python dictionaries\<close>

text \<open>
  Keys of the dictionaries the device uses: strings (operation names, memory-region
  names, register names) and integers (circuit hashes).
\<close>

datatype key = StrKey string | IntKey int

text \<open>
  The exceptions the code can raise. \<open>ValueError\<close>, \<open>DeviceError\<close> and \<open>KeyError\<close>
  carry what the source puts into them (the message, the missing key). \<open>WireError\<close>
  is PennyLane's, raised for a wire that is not on the device. \<open>NumpyError\<close>
  stands for every exception raised inside numpy (reshape to a wrong size, an axis out
  of range, a repeated axis); \<open>ExternalError\<close> for a failure of the external compiler
  or machine, with its message.
\<close>

datatype error =
    ValueError string
  | DeviceError string
  | KeyError key
  | WireError
  | NumpyError
  | ExternalError string

text \<open>
  A Python \<open>dict\<close> is an association list in insertion order: \<open>map_of\<close> reads it,
  \<open>AList.update\<close> is \<open>d[k] = v\<close> (an existing key keeps its place, a new key goes
  last). \<open>d[k]\<close> raises \<open>KeyError\<close> on a missing key; \<open>d.get(k, default)\<close> does not.
\<close>

definition dict_getitem :: "('k \<Rightarrow> key) \<Rightarrow> ('k \<times> 'v) list \<Rightarrow> 'k \<Rightarrow> error + 'v" where
  "dict_getitem mk d k = (case map_of d k of None \<Rightarrow> Inl (KeyError (mk k)) | Some v \<Rightarrow> Inr v)"

definition dict_get :: "('k \<times> 'v) list \<Rightarrow> 'k \<Rightarrow> 'v \<Rightarrow> 'v" where
  "dict_get d k dflt = (case map_of d k of None \<Rightarrow> dflt | Some v \<Rightarrow> v)"

definition dict_contains :: "('k \<times> 'v) list \<Rightarrow> 'k \<Rightarrow> bool" where
  "dict_contains d k = (map_of d k \<noteq> None)"

text \<open>Sequencing of a computation that may raise: the first error wins.\<close>

definition and_then :: "error + 'a \<Rightarrow> ('a \<Rightarrow> error + 'b) \<Rightarrow> error + 'b" where
  "and_then m f = (case m of Inl e \<Rightarrow> Inl e | Inr x \<Rightarrow> f x)"

text \<open>\<open>str(n)\<close> for a non-negative integer: its decimal digits.\<close>

definition digit_char :: "nat \<Rightarrow> char" where
  "digit_char d = char_of (48 + d)"

fun str_nat :: "nat \<Rightarrow> string" where
  "str_nat n = (if n < 10 then [digit_char n] else str_nat (n div 10) @ [digit_char (n mod 10)])"

declare str_nat.simps [simp del]

text \<open>\<open>pat in s\<close> for strings: \<open>pat\<close> occurs in \<open>s\<close> as a contiguous substring.\<close>

fun starts_with :: "string \<Rightarrow> string \<Rightarrow> bool" where
  "starts_with s [] = True"
| "starts_with [] (p # ps) = False"
| "starts_with (c # cs) (p # ps) = (c = p \<and> starts_with cs ps)"

fun str_contains :: "string \<Rightarrow> string \<Rightarrow> bool" where
  "str_contains [] pat = (pat = [])"
| "str_contains (c # cs) pat = (starts_with (c # cs) pat \<or> str_contains cs pat)"

section \<open>The part of numpy that \<open>mat_vec_product\<close> uses\<close>

text \<open>
  An \<open>ndarray\<close> is its shape and its elements in C (row-major) order. The elements are
  taken from any commutative semiring: the complex amplitudes of the source are
  computed with exactly, so rounding is outside this model.
\<close>

record 'a ndarray =
  shape :: "nat list"
  data :: "'a list"

text \<open>
  The flat position of a multi-index in C order, and back
  (\<open>np.ravel_multi_index\<close>, \<open>np.unravel_index\<close>).
\<close>

fun ravel :: "nat list \<Rightarrow> nat list \<Rightarrow> nat" where
  "ravel (d # ds) (x # xs) = x * prod_list ds + ravel ds xs"
| "ravel _ _ = 0"

fun unravel :: "nat list \<Rightarrow> nat \<Rightarrow> nat list" where
  "unravel [] i = []"
| "unravel (d # ds) i = (i div prod_list ds) # unravel ds (i mod prod_list ds)"

text \<open>\<open>list.index\<close>: the first position of a value in a list.\<close>

fun position :: "nat \<Rightarrow> nat list \<Rightarrow> nat" where
  "position a [] = 0"
| "position a (x # xs) = (if x = a then 0 else Suc (position a xs))"

text \<open>\<open>np.reshape\<close>: the same elements under a new shape of the same size.\<close>

definition reshape :: "'a ndarray \<Rightarrow> nat list \<Rightarrow> error + 'a ndarray" where
  "reshape a newshape =
     (if prod_list newshape = length (data a) then Inr (a\<lparr>shape := newshape\<rparr>)
      else Inl NumpyError)"

text \<open>
  \<open>np.transpose(a, axes)\<close>: axis \<open>i\<close> of the result is axis \<open>axes[i]\<close> of \<open>a\<close>, so the
  element at multi-index \<open>x\<close> of the result is the element of \<open>a\<close> at the multi-index
  \<open>y\<close> with \<open>y[axes[i]] = x[i]\<close>. \<open>axes\<close> must be a permutation of the axes of \<open>a\<close>.
\<close>

definition is_axes_perm :: "nat list \<Rightarrow> nat \<Rightarrow> bool" where
  "is_axes_perm axes nd = (length axes = nd \<and> distinct axes \<and> list_all (\<lambda>ax. ax < nd) axes)"

definition transpose_nd :: "'a ndarray \<Rightarrow> nat list \<Rightarrow> error + 'a ndarray" where
  "transpose_nd a axes =
     (if \<not> is_axes_perm axes (length (shape a)) then Inl NumpyError
      else
        let s = map (\<lambda>ax. shape a ! ax) axes
        in Inr \<lparr>shape = s,
                data = map (\<lambda>p. data a ! ravel (shape a)
                                   (map (\<lambda>m. unravel s p ! position m axes) [0..<length axes]))
                           [0..<prod_list s]\<rparr>)"

text \<open>\<open>np.dot\<close> of two 2-dimensional arrays: the matrix product.\<close>

definition dot :: "'a::comm_semiring_1 ndarray \<Rightarrow> 'a ndarray \<Rightarrow> error + 'a ndarray" where
  "dot a b =
     (if length (shape a) \<noteq> 2 \<or> length (shape b) \<noteq> 2 \<or> shape a ! 1 \<noteq> shape b ! 0
      then Inl NumpyError
      else
        let r = shape a ! 0; K = shape a ! 1; c = shape b ! 1
        in Inr \<lparr>shape = [r, c],
                data = map (\<lambda>p. sum_list (map (\<lambda>k. data a ! ((p div c) * K + k) *
                                                     data b ! (k * c + p mod c)) [0..<K]))
                           [0..<r * c]\<rparr>)"

text \<open>
  \<open>np.tensordot(a, b, axes=(axes_a, axes_b))\<close>, as numpy computes it: the axes summed
  over are moved to the end of \<open>a\<close> and to the front of \<open>b\<close>, both arrays are
  reshaped to matrices, multiplied, and the product is reshaped to the free axes of
  \<open>a\<close> followed by the free axes of \<open>b\<close>, each in ascending order.
\<close>

definition tensordot ::
  "'a::comm_semiring_1 ndarray \<Rightarrow> 'a ndarray \<Rightarrow> nat list \<Rightarrow> nat list \<Rightarrow> error + 'a ndarray" where
  "tensordot a b axes_a axes_b =
     (let ashp = shape a; nda = length ashp; bshp = shape b; ndb = length bshp in
      if length axes_a \<noteq> length axes_b
         \<or> \<not> list_all (\<lambda>ax. ax < nda) axes_a \<or> \<not> list_all (\<lambda>ax. ax < ndb) axes_b
         \<or> map (\<lambda>ax. ashp ! ax) axes_a \<noteq> map (\<lambda>ax. bshp ! ax) axes_b
      then Inl NumpyError
      else
        let notin_a = filter (\<lambda>k. k \<notin> set axes_a) [0..<nda];
            newaxes_a = notin_a @ axes_a;
            N2a = prod_list (map (\<lambda>ax. ashp ! ax) axes_a);
            olda = map (\<lambda>ax. ashp ! ax) notin_a;
            notin_b = filter (\<lambda>k. k \<notin> set axes_b) [0..<ndb];
            newaxes_b = axes_b @ notin_b;
            N2b = prod_list (map (\<lambda>ax. bshp ! ax) axes_b);
            oldb = map (\<lambda>ax. bshp ! ax) notin_b
        in and_then (transpose_nd a newaxes_a) (\<lambda>at0.
           and_then (reshape at0 [prod_list olda, N2a]) (\<lambda>amat.
           and_then (transpose_nd b newaxes_b) (\<lambda>bt0.
           and_then (reshape bt0 [N2b, prod_list oldb]) (\<lambda>bmat.
           and_then (dot amat bmat) (\<lambda>res.
           reshape res (olda @ oldb)))))))"

text \<open>
  \<open>np.argsort\<close>: the indices that sort the list (a stable insertion sort; on the
  distinct entries of a permutation every sorting algorithm gives the same answer).
\<close>

definition argsort :: "nat list \<Rightarrow> nat list" where
  "argsort xs = sort_key (\<lambda>i. xs ! i) [0..<length xs]"

section \<open>\<open>QuantumComputerDevice.mat_vec_product\<close> (qc.py)\<close>

text \<open>The message of the \<open>ValueError\<close> raised for a matrix of the wrong shape.\<close>

definition shape_message :: "nat \<Rightarrow> string" where
  "shape_message num_wires =
     ''Please specify a '' @ str_nat (2 ^ num_wires) @ '' x '' @ str_nat (2 ^ num_wires) @
     '' matrix for '' @ str_nat num_wires @ '' wires.''"

text \<open>
  \<open>dev_num_wires\<close> is \<open>self.num_wires\<close>, the number of qubits of the device;
  \<open>device_wire_labels\<close> are the target qubits, as natural numbers.
\<close>

definition mat_vec_product ::
  "nat \<Rightarrow> 'a::comm_semiring_1 ndarray \<Rightarrow> 'a ndarray \<Rightarrow> nat list \<Rightarrow> error + 'a ndarray" where
  "mat_vec_product dev_num_wires mat vec device_wire_labels =
     (let num_wires = length device_wire_labels in
      if shape mat \<noteq> [2 ^ num_wires, 2 ^ num_wires]
      then Inl (ValueError (shape_message num_wires))
      else
        and_then (reshape mat (replicate (length device_wire_labels * 2) 2)) (\<lambda>mat'.
        and_then (reshape vec (replicate dev_num_wires 2)) (\<lambda>vec'.
        and_then (tensordot mat' vec'
                    [length device_wire_labels..<2 * length device_wire_labels]
                    device_wire_labels) (\<lambda>tdot.
          let unused_idxs = filter (\<lambda>idx. idx \<notin> set device_wire_labels) [0..<dev_num_wires];
              perm = device_wire_labels @ unused_idxs;
              inv_perm = argsort perm
          in and_then (transpose_nd tdot inv_perm) (\<lambda>state_multi_index.
             reshape state_multi_index [2 ^ dev_num_wires])))))"

subsection \<open>What the contraction is expected to compute\<close>

text \<open>
  A position \<open>p\<close> of the state vector of \<open>n\<close> qubits is the multi-index
  \<open>unravel (replicate n 2) p\<close>, one bit per qubit, qubit 0 first. \<open>target_bits\<close> are
  the bits of the target qubits, in the order the targets are given;
  \<open>with_target_bits\<close> replaces them. \<open>contract\<close> applies the matrix to the target
  qubits directly: the amplitude at \<open>x\<close> is the sum over the basis states \<open>j\<close> of
  the targets of the matrix entry (row: the target bits of \<open>x\<close>, column: \<open>j\<close>) times
  the amplitude at \<open>x\<close> with the target bits replaced by \<open>j\<close>.
\<close>

definition target_bits :: "nat list \<Rightarrow> nat list \<Rightarrow> nat list" where
  "target_bits labels x = map (\<lambda>q. x ! q) labels"

definition with_target_bits :: "nat \<Rightarrow> nat list \<Rightarrow> nat list \<Rightarrow> nat list \<Rightarrow> nat list" where
  "with_target_bits n labels x bs =
     map (\<lambda>m. if m \<in> set labels then bs ! position m labels else x ! m) [0..<n]"

definition contract ::
  "nat \<Rightarrow> 'a::comm_semiring_1 list \<Rightarrow> 'a list \<Rightarrow> nat list \<Rightarrow> 'a list" where
  "contract n m v labels =
     map (\<lambda>p. sum_list (map (\<lambda>j.
            m ! (ravel (replicate (length labels) 2)
                   (target_bits labels (unravel (replicate n 2) p)) * 2 ^ length labels + j) *
            v ! ravel (replicate n 2)
                  (with_target_bits n labels (unravel (replicate n 2) p)
                     (unravel (replicate (length labels) 2) j)))
          [0..<2 ^ length labels]))
       [0..<2 ^ n]"

text \<open>
  \<open>left_inverse k a b\<close>: the product of the \<open>2^k x 2^k\<close> matrices with the elements
  \<open>a\<close> and \<open>b\<close> (row-major) is the identity matrix.
\<close>

definition left_inverse :: "nat \<Rightarrow> 'a::comm_semiring_1 list \<Rightarrow> 'a list \<Rightarrow> bool" where
  "left_inverse k a b =
     list_all (\<lambda>r. list_all (\<lambda>c.
         sum_list (map (\<lambda>j. a ! (r * 2 ^ k + j) * b ! (j * 2 ^ k + c)) [0..<2 ^ k])
           = (if r = c then 1 else 0)) [0..<2 ^ k]) [0..<2 ^ k]"

section \<open>Programs, parameters and the device state\<close>

text \<open>
  A parameter of an operation is a Python object: \<open>pid\<close> is \<open>id(param)\<close>, the
  identity of the object; \<open>requires_grad\<close> is \<open>getattr(param, "requires_grad", False)\<close>;
  \<open>unwrap\<close> is the numeric value \<open>param.unwrap()\<close>. Two occurrences are the same
  object exactly when their \<open>pid\<close> is the same.
\<close>

record 'v param =
  pid :: nat
  requires_grad :: bool
  unwrap :: 'v

record ('w, 'v) operation =
  name :: string
  data :: "'v param list"
  wires :: "'w list"

text \<open>
  A pyQuil memory reference (the parameter handle) is the name of its region. What the
  builder passes to a gate constructor is either the parameter object itself or a
  memory reference.
\<close>

datatype memref = MemoryReference string

datatype 'v arg = Lit "'v param" | Ref memref

text \<open>
  A pyQuil \<open>Program\<close>: the declared memory regions (name and type), the instructions,
  the values written to memory, and the number of shots. \<open>declare\<close> adds a region and
  returns the reference to it; \<open>write_memory\<close> overwrites the value of a region.
\<close>

record ('i, 'v) program =
  declarations :: "(string \<times> string) list"
  instructions :: "'i list"
  memory :: "(string \<times> 'v list) list"
  num_shots :: nat

definition declare_region ::
  "('i, 'v) program \<Rightarrow> string \<Rightarrow> string \<Rightarrow> ('i, 'v) program \<times> memref" where
  "declare_region p nm ty = (p\<lparr>declarations := declarations p @ [(nm, ty)]\<rparr>, MemoryReference nm)"

definition write_memory :: "('i, 'v) program \<Rightarrow> string \<Rightarrow> 'v list \<Rightarrow> ('i, 'v) program" where
  "write_memory p region_name val = p\<lparr>memory := AList.update region_name val (memory p)\<rparr>"

text \<open>
  The attributes of \<open>QuantumComputerDevice\<close> that the modelled methods read or write.
  A leading underscore of the source is written \<open>p_\<close>. \<open>'i\<close> is the type of
  instructions, \<open>'v\<close> of numeric parameter values, \<open>'x\<close> of compiled programs.
\<close>

record ('i, 'v, 'x) device =
  parametric_compilation :: bool
  qc_name :: string
  short_name :: string
  p_circuit_hash :: "int option"
  p_compiled_program :: "'x option"
  p_compiled_program_dict :: "(int \<times> 'x) list"
  p_parameter_map :: "(string \<times> 'v list) list"
  p_parameter_reference_map :: "(string \<times> memref) list"
  prog :: "('i, 'v) program"

text \<open>
  The device as \<open>__init__\<close> (qc.py, lines 84-104) and the first \<open>reset\<close> leave it:
  nothing compiled, no hash, empty parameter maps, an empty program.
\<close>

definition new_device :: "bool \<Rightarrow> string \<Rightarrow> string \<Rightarrow> ('i, 'v, 'x) device" where
  "new_device parametric machine_name dev_short_name =
     \<lparr>parametric_compilation = parametric, qc_name = machine_name,
      short_name = dev_short_name, p_circuit_hash = None, p_compiled_program = None,
      p_compiled_program_dict = [], p_parameter_map = [], p_parameter_reference_map = [],
      prog = \<lparr>declarations = [], instructions = [], memory = [], num_shots = 0\<rparr>\<rparr>"

text \<open>The property \<open>circuit_hash\<close> (qc.py, lines 140-145).\<close>

definition circuit_hash :: "('i, 'v, 'x) device \<Rightarrow> int option" where
  "circuit_hash dev = (if parametric_compilation dev then p_circuit_hash dev else None)"

section \<open>\<open>apply_parametric_operations\<close> (qc.py, lines 210-256)\<close>

text \<open>
  The inner loop over \<open>operation.data\<close> (lines 232-252). It returns the device, whose
  program and parameter maps it has changed, and the list \<open>par\<close>.
\<close>

fun resolve_params ::
  "string \<Rightarrow> ('i, 'v, 'x) device \<Rightarrow> 'v param list \<Rightarrow> ('i, 'v, 'x) device \<times> (error + 'v arg list)" where
  "resolve_params nm dev [] = (dev, Inr [])"
| "resolve_params nm dev (param # params) =
     (if requires_grad param \<and> nm \<noteq> ''BasisState'' then
        let parameter_string = ''theta'' @ str_nat (pid param);
            dev1 =
              (if \<not> dict_contains (p_parameter_reference_map dev) parameter_string then
                 let (prog', current_ref) = declare_region (prog dev) parameter_string ''REAL''
                 in dev\<lparr>prog := prog',
                        p_parameter_reference_map :=
                          AList.update parameter_string current_ref (p_parameter_reference_map dev)\<rparr>
               else dev);
            dev2 = dev1\<lparr>p_parameter_map :=
                          AList.update parameter_string [unwrap param] (p_parameter_map dev1)\<rparr>
        in case dict_getitem StrKey (p_parameter_reference_map dev2) parameter_string of
             Inl e \<Rightarrow> (dev2, Inl e)
           | Inr r \<Rightarrow>
               (case resolve_params nm dev2 params of
                  (dev3, Inl e) \<Rightarrow> (dev3, Inl e)
                | (dev3, Inr par) \<Rightarrow> (dev3, Inr (Ref r # par)))
      else
        case resolve_params nm dev params of
          (dev', Inl e) \<Rightarrow> (dev', Inl e)
        | (dev', Inr par) \<Rightarrow> (dev', Inr (Lit param # par)))"

definition state_prep_message :: "string \<Rightarrow> string \<Rightarrow> string" where
  "state_prep_message op_name dev_short_name =
     ''Operation '' @ op_name @
     '' cannot be used after other Operations have already been applied on a '' @
     dev_short_name @ '' device.''"

text \<open>
  \<open>self.map_wires(operation.wires)\<close> followed by \<open>.labels\<close>: PennyLane maps each
  wire label through \<open>self.wire_map\<close> (built by \<open>define_wire_map\<close>, qc.py lines
  180-187) and raises \<open>WireError\<close> when a label is not on the device.
\<close>

fun map_wires :: "('w \<times> nat) list \<Rightarrow> 'w list \<Rightarrow> error + nat list" where
  "map_wires wire_map [] = Inr []"
| "map_wires wire_map (w # ws) =
     (case map_of wire_map w of
        None \<Rightarrow> Inl WireError
      | Some q \<Rightarrow> and_then (map_wires wire_map ws) (\<lambda>qs. Inr (q # qs)))"

text \<open>
  The loop over the operations (lines 221-254), from position \<open>i\<close> on, with the
  instructions collected so far. \<open>operation_map\<close> is \<open>self._operation_map\<close>, the
  table of supported operations: each entry builds the instructions of an operation from
  its parameters and qubits. An exception leaves the device as it is at that moment.
\<close>

fun apply_loop ::
  "(string \<times> ('v arg list \<Rightarrow> nat list \<Rightarrow> 'i list)) list \<Rightarrow> ('w \<times> nat) list \<Rightarrow>
   ('i, 'v, 'x) device \<Rightarrow> nat \<Rightarrow> ('w, 'v) operation list \<Rightarrow> 'i list \<Rightarrow>
   ('i, 'v, 'x) device \<times> (error + 'i list)" where
  "apply_loop operation_map wire_map dev i [] acc = (dev, Inr acc)"
| "apply_loop operation_map wire_map dev i (operation # rest) acc =
     (case map_wires wire_map (wires operation) of
        Inl e \<Rightarrow> (dev, Inl e)
      | Inr device_wires \<Rightarrow>
          if i > 0 \<and> name operation \<in> set [''QubitStateVector'', ''BasisState'']
          then (dev, Inl (DeviceError (state_prep_message (name operation) (short_name dev))))
          else
            (case resolve_params (name operation) dev (data operation) of
               (dev', Inl e) \<Rightarrow> (dev', Inl e)
             | (dev', Inr par) \<Rightarrow>
                 (case dict_getitem StrKey operation_map (name operation) of
                    Inl e \<Rightarrow> (dev', Inl e)
                  | Inr gate \<Rightarrow>
                      apply_loop operation_map wire_map dev' (Suc i) rest
                        (acc @ gate par device_wires))))"

definition apply_parametric_operations ::
  "(string \<times> ('v arg list \<Rightarrow> nat list \<Rightarrow> 'i list)) list \<Rightarrow> ('w \<times> nat) list \<Rightarrow>
   ('i, 'v, 'x) device \<Rightarrow> ('w, 'v) operation list \<Rightarrow> ('i, 'v, 'x) device \<times> (error + 'i list)" where
  "apply_parametric_operations operation_map wire_map dev operations =
     apply_loop operation_map wire_map dev 0 operations []"

subsection \<open>What the builder is expected to do\<close>

text \<open>
  The handle of a parameter is the memory reference named after the identity of the
  parameter object. \<open>resolved_arg\<close> is what stands for a parameter in the built
  program: its handle when the parameter is differentiable and the operation is not
  \<open>BasisState\<close>, the parameter itself otherwise.
\<close>

definition param_handle :: "'v param \<Rightarrow> memref" where
  "param_handle p = MemoryReference (''theta'' @ str_nat (pid p))"

definition symbolic :: "string \<Rightarrow> 'v param \<Rightarrow> bool" where
  "symbolic nm p = (requires_grad p \<and> nm \<noteq> ''BasisState'')"

definition resolved_arg :: "string \<Rightarrow> 'v param \<Rightarrow> 'v arg" where
  "resolved_arg nm p = (if symbolic nm p then Ref (param_handle p) else Lit p)"

text \<open>
  The parameter binding table is consistent when every handle in it is the reference to
  the region it is stored under, no name has two handles, no region is declared twice,
  and every declared region has its handle in the table. The table of a device that was
  just reset, with an empty program, is consistent.
\<close>

definition handles_consistent :: "('i, 'v, 'x) device \<Rightarrow> bool" where
  "handles_consistent dev =
     (list_all (\<lambda>(k, r). r = MemoryReference k) (p_parameter_reference_map dev)
      \<and> distinct (map fst (p_parameter_reference_map dev))
      \<and> distinct (map fst (declarations (prog dev)))
      \<and> list_all (\<lambda>nm. nm \<in> set (map fst (p_parameter_reference_map dev)))
           (map fst (declarations (prog dev))))"

text \<open>
  An entry of the table of supported operations that emits one instruction: the name of
  the gate, its parameters and its qubits.
\<close>

definition gate_of ::
  "string \<Rightarrow> 'v arg list \<Rightarrow> nat list \<Rightarrow> (string \<times> 'v arg list \<times> nat list) list" where
  "gate_of nm par qs = [(nm, par, qs)]"

text \<open>
  The instructions of one operation, and the device after the parameters of a list of
  operations have gone through the inner loop.
\<close>

definition emit ::
  "(string \<times> ('v arg list \<Rightarrow> nat list \<Rightarrow> 'i list)) list \<Rightarrow> ('w \<times> nat) list \<Rightarrow>
   ('w, 'v) operation \<Rightarrow> 'i list" where
  "emit operation_map wire_map operation =
     (case (map_of operation_map (name operation), map_wires wire_map (wires operation)) of
        (Some gate, Inr device_wires) \<Rightarrow>
          gate (map (resolved_arg (name operation)) (data operation)) device_wires
      | _ \<Rightarrow> [])"

definition resolve_all ::
  "('i, 'v, 'x) device \<Rightarrow> ('w, 'v) operation list \<Rightarrow> ('i, 'v, 'x) device" where
  "resolve_all dev ops = fold (\<lambda>operation d. fst (resolve_params (name operation) d (data operation))) ops dev"

text \<open>
  The operation at position \<open>i\<close> passes when its wires are on the device, it is not a
  state preparation after the first position, and its name is in the table of supported
  operations; \<open>all_pass\<close> says so of a list of operations that starts at position \<open>i\<close>.
\<close>

definition passes ::
  "(string \<times> ('v arg list \<Rightarrow> nat list \<Rightarrow> 'i list)) list \<Rightarrow> ('w \<times> nat) list \<Rightarrow> nat \<Rightarrow>
   ('w, 'v) operation \<Rightarrow> bool" where
  "passes operation_map wire_map i operation =
     (list_all (dict_contains wire_map) (wires operation)
      \<and> \<not> (i > 0 \<and> name operation \<in> set [''QubitStateVector'', ''BasisState''])
      \<and> dict_contains operation_map (name operation))"

fun all_pass ::
  "(string \<times> ('v arg list \<Rightarrow> nat list \<Rightarrow> 'i list)) list \<Rightarrow> ('w \<times> nat) list \<Rightarrow> nat \<Rightarrow>
   ('w, 'v) operation list \<Rightarrow> bool" where
  "all_pass operation_map wire_map i [] = True"
| "all_pass operation_map wire_map i (operation # rest) =
     (passes operation_map wire_map i operation \<and> all_pass operation_map wire_map (Suc i) rest)"

section \<open>\<open>extract_samples\<close> and \<open>generate_samples\<close> (qc.py, lines 263-295)\<close>

text \<open>
  The result of an execution: \<open>readout_data\<close> maps a register name to its contents,
  one row of bits per shot.
\<close>

record execution_result =
  readout_data :: "(string \<times> int list list) list"

definition extract_samples :: "execution_result \<Rightarrow> int list list" where
  "extract_samples execution_results = dict_get (readout_data execution_results) ''ro'' []"

text \<open>\<open>QVMDevice.extract_samples\<close> (qvm.py, lines 124-131) is the same method again.\<close>

definition qvm_extract_samples :: "execution_result \<Rightarrow> int list list" where
  "qvm_extract_samples execution_results = dict_get (readout_data execution_results) ''ro'' []"

text \<open>What \<open>qc.run\<close> is given: the program itself, or a compiled program.\<close>

datatype ('i, 'v, 'x) runnable = Raw "('i, 'v) program" | Executable 'x

text \<open>
  \<open>generate_samples\<close>. The external \<open>qc.compile\<close> and \<open>qc.run\<close> are arguments: each
  returns a value or raises. Next to the device and the samples (or the exception), the
  model returns the calls of \<open>qc.compile\<close> made, each with the program compiled and
  what the compiler answered, as a call-counting compiler would record them.
\<close>

definition run_and_extract ::
  "(('i, 'v, 'x) runnable \<Rightarrow> error + execution_result) \<Rightarrow> ('i, 'v, 'x) runnable \<Rightarrow>
   error + int list list" where
  "run_and_extract run r = and_then (run r) (\<lambda>results. Inr (extract_samples results))"

definition generate_samples ::
  "(('i, 'v) program \<Rightarrow> error + 'x) \<Rightarrow> (('i, 'v, 'x) runnable \<Rightarrow> error + execution_result) \<Rightarrow>
   ('i, 'v, 'x) device \<Rightarrow>
   ('i, 'v, 'x) device \<times> (('i, 'v) program \<times> (error + 'x)) list \<times> (error + int list list)" where
  "generate_samples compile run dev =
     (let dev1 =
            (if parametric_compilation dev
             then dev\<lparr>prog := fold (\<lambda>(region, val) p. write_memory p region val)
                                   (p_parameter_map dev) (prog dev)\<rparr>
             else dev)
      in
        if str_contains (qc_name dev1) ''pyqvm'' then
          (dev1, [], run_and_extract run (Raw (prog dev1)))
        else
          case circuit_hash dev1 of
            None \<Rightarrow>
              (case compile (prog dev1) of
                 Inl e \<Rightarrow> (dev1, [(prog dev1, Inl e)], Inl e)
               | Inr x \<Rightarrow>
                   (dev1\<lparr>p_compiled_program := Some x\<rparr>, [(prog dev1, Inr x)],
                    run_and_extract run (Executable x)))
          | Some h \<Rightarrow>
              if \<not> dict_contains (p_compiled_program_dict dev1) h then
                (case compile (prog dev1) of
                   Inl e \<Rightarrow> (dev1, [(prog dev1, Inl e)], Inl e)
                 | Inr x \<Rightarrow>
                     let dev2 = dev1\<lparr>p_compiled_program_dict :=
                                       AList.update h x (p_compiled_program_dict dev1)\<rparr>
                     in (case dict_getitem IntKey (p_compiled_program_dict dev2) h of
                           Inl e \<Rightarrow> (dev2, [(prog dev1, Inr x)], Inl e)
                         | Inr y \<Rightarrow>
                             (dev2\<lparr>p_compiled_program := Some y\<rparr>, [(prog dev1, Inr x)],
                              run_and_extract run (Executable y))))
              else
                (case dict_getitem IntKey (p_compiled_program_dict dev1) h of
                   Inl e \<Rightarrow> (dev1, [], Inl e)
                 | Inr y \<Rightarrow>
                     (dev1\<lparr>p_compiled_program := Some y\<rparr>, [],
                      run_and_extract run (Executable y))))"

section \<open>The lifetime of a device\<close>

text \<open>
  What happens to a device between its construction and its end, as far as the
  modelled attributes go:
  \<^item> \<open>Execute h\<close>: \<open>execute\<close> stores the hash of the circuit (qc.py, lines 258-261);
  \<^item> \<open>Reset p\<close>: \<open>reset\<close> (lines 297-309); the superclass's part leaves the program
    \<open>p\<close>, then the hash and both parameter maps are cleared, and the compiled programs
    are kept;
  \<^item> \<open>Build p pm rm\<close>: a circuit build (\<open>apply\<close>) leaves any program \<open>p\<close> and any
    parameter maps \<open>pm\<close>, \<open>rm\<close>; in particular it may change the numeric values only;
  \<^item> \<open>GenerateSamples compile run\<close>: a call of \<open>generate_samples\<close>, with the
    behaviour of the external compiler and machine during that call.
\<close>

datatype ('i, 'v, 'x) event =
    Execute int
  | Reset "('i, 'v) program"
  | Build "('i, 'v) program" "(string \<times> 'v list) list" "(string \<times> memref) list"
  | GenerateSamples "('i, 'v) program \<Rightarrow> error + 'x"
                    "('i, 'v, 'x) runnable \<Rightarrow> error + execution_result"

definition execute_set_hash :: "('i, 'v, 'x) device \<Rightarrow> int \<Rightarrow> ('i, 'v, 'x) device" where
  "execute_set_hash dev h =
     (if parametric_compilation dev then dev\<lparr>p_circuit_hash := Some h\<rparr> else dev)"

definition reset :: "('i, 'v, 'x) device \<Rightarrow> ('i, 'v) program \<Rightarrow> ('i, 'v, 'x) device" where
  "reset dev fresh =
     (let dev1 = dev\<lparr>prog := fresh\<rparr>
      in if parametric_compilation dev1
         then dev1\<lparr>p_circuit_hash := None, p_parameter_map := [],
                   p_parameter_reference_map := []\<rparr>
         else dev1)"

text \<open>
  A compile call in the log of a lifetime: the value of \<open>circuit_hash\<close> at the call,
  the program compiled, and the compiler's answer.
\<close>

record ('i, 'v, 'x) compile_call =
  call_hash :: "int option"
  call_program :: "('i, 'v) program"
  call_answer :: "error + 'x"

fun lifetime ::
  "('i, 'v, 'x) device \<Rightarrow> ('i, 'v, 'x) event list \<Rightarrow>
   ('i, 'v, 'x) device \<times> ('i, 'v, 'x) compile_call list" where
  "lifetime dev [] = (dev, [])"
| "lifetime dev (Execute h # es) = lifetime (execute_set_hash dev h) es"
| "lifetime dev (Reset fresh # es) = lifetime (reset dev fresh) es"
| "lifetime dev (Build p pm rm # es) =
     lifetime (dev\<lparr>prog := p, p_parameter_map := pm, p_parameter_reference_map := rm\<rparr>) es"
| "lifetime dev (GenerateSamples compile run # es) =
     (case generate_samples compile run dev of
        (dev', calls, res) \<Rightarrow>
          (case lifetime dev' es of
             (dev'', later) \<Rightarrow>
               (dev'',
                map (\<lambda>(p, a). \<lparr>call_hash = circuit_hash dev, call_program = p, call_answer = a\<rparr>)
                    calls @ later)))"

text \<open>The compile calls made for the hash \<open>h\<close>, in the order they were made.\<close>

definition compiles_for ::
  "int \<Rightarrow> ('i, 'v, 'x) compile_call list \<Rightarrow> ('i, 'v, 'x) compile_call list" where
  "compiles_for h calls = filter (\<lambda>c. call_hash c = Some h) calls"

definition returned :: "('i, 'v, 'x) compile_call \<Rightarrow> bool" where
  "returned c = (case call_answer c of Inl e \<Rightarrow> False | Inr x \<Rightarrow> True)"

section \<open>\<open>QVMDevice.__init__\<close> (qvm.py, lines 74-78)\<close>

text \<open>
  \<open>shots\<close> is \<open>None\<close> or a value. \<open>super_init\<close> is the constructor of the superclass,
  which builds the device and contacts the machine; it returns the contacts it made and
  the device or an exception. The model returns the same pair.
\<close>

definition qvm_init ::
  "('d \<Rightarrow> 'w \<Rightarrow> 's option \<Rightarrow> bool \<Rightarrow> bool \<Rightarrow> 'k \<Rightarrow> 'c list \<times> (error + 'q)) \<Rightarrow>
   'd \<Rightarrow> 'w \<Rightarrow> 's option \<Rightarrow> bool \<Rightarrow> 'k \<Rightarrow> 'c list \<times> (error + 'q)" where
  "qvm_init super_init device_name wires_arg shots noisy kwargs =
     (if shots = None
      then ([], Inl (ValueError ''QVM device cannot be used for analytic computations.''))
      else super_init device_name wires_arg shots noisy False kwargs)"

section \<open>Properties\<close>

subsection \<open>Helper facts: errors of the numpy part\<close>

lemma and_then_Inl:
  "and_then m f = Inl e \<Longrightarrow> m = Inl e \<or> (\<exists>x. m = Inr x \<and> f x = Inl e)"
  by (cases m) (simp_all add: and_then_def)

lemma and_then_Inr [simp]: "and_then (Inr x) f = f x"
  by (simp add: and_then_def)

lemma reshape_error: "reshape a s = Inl e \<Longrightarrow> e = NumpyError"
  by (simp add: reshape_def split: if_splits)

lemma transpose_nd_error: "transpose_nd a axes = Inl e \<Longrightarrow> e = NumpyError"
  by (simp add: transpose_nd_def Let_def split: if_splits)

lemma dot_error: "dot a b = Inl e \<Longrightarrow> e = NumpyError"
  by (simp add: dot_def Let_def split: if_splits)

lemma tensordot_error: "tensordot a b axes_a axes_b = Inl e \<Longrightarrow> e = NumpyError"
  unfolding tensordot_def Let_def
  by (auto split: if_splits dest!: and_then_Inl dest: reshape_error transpose_nd_error dot_error)

lemma numpy_part_error:
  assumes "and_then (reshape mat s1) (\<lambda>mat'.
        and_then (reshape vec s2) (\<lambda>vec'.
        and_then (tensordot mat' vec' ax1 ax2) (\<lambda>tdot.
          and_then (transpose_nd tdot ip) (\<lambda>state_multi_index.
             reshape state_multi_index s3)))) = Inl e"
  shows "e = NumpyError"
  using assms
  by (auto dest!: and_then_Inl dest: reshape_error transpose_nd_error tensordot_error)

subsection \<open>Helper facts: decimal strings\<close>

lemma digit_char_inj: "a < 10 \<Longrightarrow> b < 10 \<Longrightarrow> digit_char a = digit_char b \<Longrightarrow> a = b"
proof -
  assume a: "a < 10" and b: "b < 10" and e: "digit_char a = digit_char b"
  from e have "of_char (char_of (48 + a) :: char) = (of_char (char_of (48 + b) :: char) :: nat)"
    by (simp add: digit_char_def)
  with a b show "a = b" by simp
qed

lemma str_nat_nonempty: "str_nat n \<noteq> []"
  by (subst str_nat.simps) simp

lemma str_nat_inj: "str_nat n = str_nat m \<Longrightarrow> n = m"
proof (induction n arbitrary: m rule: str_nat.induct)
  case (1 n)
  show ?case
  proof (cases "n < 10")
    case True
    show ?thesis
    proof (cases "m < 10")
      case m: True
      from "1.prems" True m have "digit_char n = digit_char m"
        by (simp add: str_nat.simps [of n] str_nat.simps [of m])
      with True m show ?thesis by (blast intro: digit_char_inj)
    next
      case m: False
      from "1.prems" True m have "[digit_char n] = str_nat (m div 10) @ [digit_char (m mod 10)]"
        by (simp add: str_nat.simps [of n] str_nat.simps [of m])
      then have "str_nat (m div 10) = []" by simp
      then show ?thesis by (simp add: str_nat_nonempty)
    qed
  next
    case False
    show ?thesis
    proof (cases "m < 10")
      case m: True
      from "1.prems" False m have "str_nat (n div 10) @ [digit_char (n mod 10)] = [digit_char m]"
        by (simp add: str_nat.simps [of n] str_nat.simps [of m])
      then have "str_nat (n div 10) = []" by simp
      then show ?thesis by (simp add: str_nat_nonempty)
    next
      case m: False
      from "1.prems" False m
      have "str_nat (n div 10) @ [digit_char (n mod 10)] = str_nat (m div 10) @ [digit_char (m mod 10)]"
        by (simp add: str_nat.simps [of n] str_nat.simps [of m])
      then have a: "str_nat (n div 10) = str_nat (m div 10)"
        and b: "digit_char (n mod 10) = digit_char (m mod 10)" by simp_all
      from "1.IH" [OF False a] have "n div 10 = m div 10" .
      moreover from b have "n mod 10 = m mod 10" by (auto intro: digit_char_inj)
      ultimately show ?thesis by (metis div_mult_mod_eq)
    qed
  qed
qed

lemma param_handle_eq: "(param_handle p = param_handle q) = (pid p = pid q)"
  by (auto simp: param_handle_def dest: str_nat_inj)

subsection \<open>Helper facts: the inner loop over the parameters\<close>

lemma list_all_update:
  "list_all P al \<Longrightarrow> P (k, v) \<Longrightarrow> list_all P (AList.update k v al)"
  by (induction al) auto

lemma consistent_lookup:
  "list_all (\<lambda>(k, r). r = MemoryReference k) al \<Longrightarrow> map_of al k = Some r \<Longrightarrow> r = MemoryReference k"
  by (induction al) (auto split: if_splits)

lemma map_of_None_keys: "map_of al k = None \<Longrightarrow> k \<notin> set (map fst al)"
  by (simp add: map_of_eq_None_iff)

lemma resolve_params_Cons_symbolic_new:
  assumes "symbolic nm p" and "map_of (p_parameter_reference_map dev) (''theta'' @ str_nat (pid p)) = None"
  shows "resolve_params nm dev (p # ps) =
    (case resolve_params nm
        (dev\<lparr>prog := (prog dev)\<lparr>declarations := declarations (prog dev) @ [(''theta'' @ str_nat (pid p), ''REAL'')]\<rparr>,
             p_parameter_reference_map := AList.update (''theta'' @ str_nat (pid p)) (param_handle p) (p_parameter_reference_map dev),
             p_parameter_map := AList.update (''theta'' @ str_nat (pid p)) [unwrap p] (p_parameter_map dev)\<rparr>) ps of
       (dev3, Inl e) \<Rightarrow> (dev3, Inl e)
     | (dev3, Inr par) \<Rightarrow> (dev3, Inr (Ref (param_handle p) # par)))"
  unfolding param_handle_def using assms
  by (simp add: symbolic_def Let_def dict_contains_def dict_getitem_def declare_region_def
      update_conv' split: prod.splits sum.splits)

lemma resolve_params_Cons_symbolic_old:
  assumes "symbolic nm p" and "map_of (p_parameter_reference_map dev) (''theta'' @ str_nat (pid p)) = Some r"
  shows "resolve_params nm dev (p # ps) =
    (case resolve_params nm
        (dev\<lparr>p_parameter_map := AList.update (''theta'' @ str_nat (pid p)) [unwrap p] (p_parameter_map dev)\<rparr>) ps of
       (dev3, Inl e) \<Rightarrow> (dev3, Inl e)
     | (dev3, Inr par) \<Rightarrow> (dev3, Inr (Ref r # par)))"
  using assms
  by (simp add: symbolic_def Let_def dict_contains_def dict_getitem_def
      split: prod.splits sum.splits)

lemma resolve_params_Cons_literal:
  assumes "\<not> symbolic nm p"
  shows "resolve_params nm dev (p # ps) =
    (case resolve_params nm dev ps of
       (dev', Inl e) \<Rightarrow> (dev', Inl e)
     | (dev', Inr par) \<Rightarrow> (dev', Inr (Lit p # par)))"
  using assms by (auto simp: symbolic_def)

lemma resolve_params_never_fails: "\<exists>par. snd (resolve_params nm dev ps) = Inr par"
proof (induction ps arbitrary: dev)
  case Nil
  show ?case by simp
next
  case (Cons p ps)
  show ?case
  proof (cases "symbolic nm p")
    case False
    obtain par where "snd (resolve_params nm dev ps) = Inr par" using Cons.IH by blast
    then show ?thesis
      by (simp only: resolve_params_Cons_literal [OF False]) (auto split: prod.splits sum.splits)
  next
    case True
    show ?thesis
    proof (cases "map_of (p_parameter_reference_map dev) (''theta'' @ str_nat (pid p))")
      case None
      let ?d = "dev\<lparr>prog := (prog dev)\<lparr>declarations := declarations (prog dev) @ [(''theta'' @ str_nat (pid p), ''REAL'')]\<rparr>,
             p_parameter_reference_map := AList.update (''theta'' @ str_nat (pid p)) (param_handle p) (p_parameter_reference_map dev),
             p_parameter_map := AList.update (''theta'' @ str_nat (pid p)) [unwrap p] (p_parameter_map dev)\<rparr>"
      obtain par where "snd (resolve_params nm ?d ps) = Inr par" using Cons.IH by blast
      then show ?thesis
        by (simp only: resolve_params_Cons_symbolic_new [OF True None]) (auto split: prod.splits sum.splits)
    next
      case (Some r)
      let ?d = "dev\<lparr>p_parameter_map := AList.update (''theta'' @ str_nat (pid p)) [unwrap p] (p_parameter_map dev)\<rparr>"
      obtain par where "snd (resolve_params nm ?d ps) = Inr par" using Cons.IH by blast
      then show ?thesis
        by (simp only: resolve_params_Cons_symbolic_old [OF True Some]) (auto split: prod.splits sum.splits)
    qed
  qed
qed

lemma resolve_params_consistent:
  "handles_consistent dev \<Longrightarrow>
   handles_consistent (fst (resolve_params nm dev ps))
   \<and> snd (resolve_params nm dev ps) = Inr (map (resolved_arg nm) ps)"
proof (induction ps arbitrary: dev)
  case Nil
  then show ?case by simp
next
  case (Cons p ps)
  show ?case
  proof (cases "symbolic nm p")
    case False
    from Cons.IH [OF Cons.prems] show ?thesis
      by (simp only: resolve_params_Cons_literal [OF False])
         (auto split: prod.splits sum.splits simp: resolved_arg_def False)
  next
    case True
    let ?k = "''theta'' @ str_nat (pid p)"
    show ?thesis
    proof (cases "map_of (p_parameter_reference_map dev) ?k")
      case None
      let ?d = "dev\<lparr>prog := (prog dev)\<lparr>declarations := declarations (prog dev) @ [(?k, ''REAL'')]\<rparr>,
             p_parameter_reference_map := AList.update ?k (param_handle p) (p_parameter_reference_map dev),
             p_parameter_map := AList.update ?k [unwrap p] (p_parameter_map dev)\<rparr>"
      from None have notin: "?k \<notin> set (map fst (p_parameter_reference_map dev))"
        by (rule map_of_None_keys)
      let ?al = "p_parameter_reference_map dev" and ?ds = "declarations (prog dev)"
      from Cons.prems have pre:
        "list_all (\<lambda>(k, r). r = MemoryReference k) ?al" "distinct (map fst ?al)"
        "distinct (map fst ?ds)" "list_all (\<lambda>nm. nm \<in> set (map fst ?al)) (map fst ?ds)"
        by (simp_all add: handles_consistent_def)
      have c1: "list_all (\<lambda>(k, r). r = MemoryReference k) (AList.update ?k (param_handle p) ?al)"
        using pre(1) by (rule list_all_update) (simp add: param_handle_def)
      have c2: "distinct (map fst (AList.update ?k (param_handle p) ?al))"
        using pre(2) by (rule distinct_update)
      have sub: "set (map fst ?ds) \<subseteq> set (map fst ?al)"
        using pre(4) unfolding list_all_iff by blast
      with notin have "?k \<notin> set (map fst ?ds)" by blast
      with pre(3) have c3: "distinct (map fst (?ds @ [(?k, ''REAL'')]))" by simp
      have keys: "set (map fst (AList.update ?k (param_handle p) ?al)) = insert ?k (set (map fst ?al))"
        using dom_update [of ?k "param_handle p" ?al] by (simp add: dom_map_of_conv_image_fst)
      have c4: "list_all (\<lambda>nm. nm \<in> set (map fst (AList.update ?k (param_handle p) ?al)))
                  (map fst (?ds @ [(?k, ''REAL'')]))"
        unfolding list_all_iff keys using sub by auto
      have "handles_consistent ?d"
        unfolding handles_consistent_def using c1 c2 c3 c4 by simp
      from Cons.IH [OF this] show ?thesis
        by (simp only: resolve_params_Cons_symbolic_new [OF True None])
           (auto split: prod.splits sum.splits simp: resolved_arg_def True)
    next
      case (Some r)
      let ?d = "dev\<lparr>p_parameter_map := AList.update ?k [unwrap p] (p_parameter_map dev)\<rparr>"
      have r: "r = param_handle p"
        using Cons.prems Some by (auto simp: handles_consistent_def param_handle_def dest: consistent_lookup)
      have "handles_consistent ?d"
        using Cons.prems by (simp add: handles_consistent_def)
      from Cons.IH [OF this] show ?thesis
        by (simp only: resolve_params_Cons_symbolic_old [OF True Some])
           (auto split: prod.splits sum.splits simp: resolved_arg_def True r)
    qed
  qed
qed

lemma resolve_params_short_name: "short_name (fst (resolve_params nm dev ps)) = short_name dev"
proof (induction ps arbitrary: dev)
  case Nil
  show ?case by simp
next
  case (Cons p ps)
  show ?case
  proof (cases "symbolic nm p")
    case False
    show ?thesis using Cons.IH [of dev]
      by (simp only: resolve_params_Cons_literal [OF False]) (auto split: prod.splits sum.splits)
  next
    case True
    show ?thesis
    proof (cases "map_of (p_parameter_reference_map dev) (''theta'' @ str_nat (pid p))")
      case None
      show ?thesis
        using Cons.IH [of "dev\<lparr>prog := (prog dev)\<lparr>declarations := declarations (prog dev) @ [(''theta'' @ str_nat (pid p), ''REAL'')]\<rparr>,
             p_parameter_reference_map := AList.update (''theta'' @ str_nat (pid p)) (param_handle p) (p_parameter_reference_map dev),
             p_parameter_map := AList.update (''theta'' @ str_nat (pid p)) [unwrap p] (p_parameter_map dev)\<rparr>"]
        by (simp only: resolve_params_Cons_symbolic_new [OF True None]) (auto split: prod.splits sum.splits)
    next
      case (Some r)
      show ?thesis
        using Cons.IH [of "dev\<lparr>p_parameter_map := AList.update (''theta'' @ str_nat (pid p)) [unwrap p] (p_parameter_map dev)\<rparr>"]
        by (simp only: resolve_params_Cons_symbolic_old [OF True Some]) (auto split: prod.splits sum.splits)
    qed
  qed
qed

lemma resolve_params_no_symbolic:
  "\<forall>p \<in> set ps. \<not> symbolic nm p \<Longrightarrow> fst (resolve_params nm dev ps) = dev"
proof (induction ps)
  case Nil
  show ?case by simp
next
  case (Cons p ps)
  then have f: "\<not> symbolic nm p" and r: "fst (resolve_params nm dev ps) = dev" by simp_all
  show ?case using r
    by (simp only: resolve_params_Cons_literal [OF f]) (auto split: prod.splits sum.splits)
qed

lemma resolve_params_keeps_handle:
  "map_of (p_parameter_reference_map dev) k = Some r \<Longrightarrow>
   map_of (p_parameter_reference_map (fst (resolve_params nm dev ps))) k = Some r"
proof (induction ps arbitrary: dev)
  case Nil
  then show ?case by simp
next
  case (Cons p ps)
  show ?case
  proof (cases "symbolic nm p")
    case False
    from Cons.IH [OF Cons.prems] show ?thesis
      by (simp only: resolve_params_Cons_literal [OF False]) (auto split: prod.splits sum.splits)
  next
    case True
    let ?k = "''theta'' @ str_nat (pid p)"
    show ?thesis
    proof (cases "map_of (p_parameter_reference_map dev) ?k")
      case None
      let ?d = "dev\<lparr>prog := (prog dev)\<lparr>declarations := declarations (prog dev) @ [(?k, ''REAL'')]\<rparr>,
             p_parameter_reference_map := AList.update ?k (param_handle p) (p_parameter_reference_map dev),
             p_parameter_map := AList.update ?k [unwrap p] (p_parameter_map dev)\<rparr>"
      from None Cons.prems have "k \<noteq> ?k" by auto
      with Cons.prems have "map_of (p_parameter_reference_map ?d) k = Some r"
        by (simp add: update_conv')
      from Cons.IH [OF this] show ?thesis
        by (simp only: resolve_params_Cons_symbolic_new [OF True None])
           (auto split: prod.splits sum.splits)
    next
      case (Some r')
      let ?d = "dev\<lparr>p_parameter_map := AList.update ?k [unwrap p] (p_parameter_map dev)\<rparr>"
      from Cons.prems have "map_of (p_parameter_reference_map ?d) k = Some r" by simp
      from Cons.IH [OF this] show ?thesis
        by (simp only: resolve_params_Cons_symbolic_old [OF True Some])
           (auto split: prod.splits sum.splits)
    qed
  qed
qed

lemma resolve_params_has_handle:
  "handles_consistent dev \<Longrightarrow> p \<in> set ps \<Longrightarrow> symbolic nm p \<Longrightarrow>
   map_of (p_parameter_reference_map (fst (resolve_params nm dev ps))) (''theta'' @ str_nat (pid p))
     = Some (param_handle p)"
proof (induction ps arbitrary: dev)
  case Nil
  then show ?case by simp
next
  case (Cons q ps)
  let ?k = "''theta'' @ str_nat (pid q)"
  show ?case
  proof (cases "symbolic nm q")
    case False
    with Cons.prems have "p \<in> set ps" by auto
    from Cons.IH [OF Cons.prems(1) this Cons.prems(3)] show ?thesis
      by (simp only: resolve_params_Cons_literal [OF False]) (auto split: prod.splits sum.splits)
  next
    case True
    show ?thesis
    proof (cases "map_of (p_parameter_reference_map dev) ?k")
      case None
      let ?d = "dev\<lparr>prog := (prog dev)\<lparr>declarations := declarations (prog dev) @ [(?k, ''REAL'')]\<rparr>,
             p_parameter_reference_map := AList.update ?k (param_handle q) (p_parameter_reference_map dev),
             p_parameter_map := AList.update ?k [unwrap q] (p_parameter_map dev)\<rparr>"
      have eq: "fst (resolve_params nm dev (q # ps)) = fst (resolve_params nm ?d ps)"
        by (simp only: resolve_params_Cons_symbolic_new [OF True None])
           (auto split: prod.splits sum.splits)
      have c: "handles_consistent ?d"
        using resolve_params_consistent [OF Cons.prems(1), of nm "[q]"]
        by (simp only: resolve_params_Cons_symbolic_new [OF True None]) simp
      show ?thesis
      proof (cases "p \<in> set ps")
        case True
        from Cons.IH [OF c True Cons.prems(3)] show ?thesis by (simp only: eq)
      next
        case False
        with Cons.prems have pq: "p = q" by simp
        have "map_of (p_parameter_reference_map ?d) ?k = Some (param_handle q)"
          by (simp add: update_conv')
        from resolve_params_keeps_handle [OF this] show ?thesis by (simp only: eq pq)
      qed
    next
      case (Some r)
      let ?d = "dev\<lparr>p_parameter_map := AList.update ?k [unwrap q] (p_parameter_map dev)\<rparr>"
      have eq: "fst (resolve_params nm dev (q # ps)) = fst (resolve_params nm ?d ps)"
        by (simp only: resolve_params_Cons_symbolic_old [OF True Some])
           (auto split: prod.splits sum.splits)
      have c: "handles_consistent ?d"
        using Cons.prems(1) by (simp add: handles_consistent_def)
      show ?thesis
      proof (cases "p \<in> set ps")
        case True
        from Cons.IH [OF c True Cons.prems(3)] show ?thesis by (simp only: eq)
      next
        case False
        with Cons.prems have pq: "p = q" by simp
        have "r = param_handle q"
          using Cons.prems(1) Some
          by (auto simp: handles_consistent_def param_handle_def dest: consistent_lookup)
        with Some have "map_of (p_parameter_reference_map ?d) ?k = Some (param_handle q)" by simp
        from resolve_params_keeps_handle [OF this] show ?thesis by (simp only: eq pq)
      qed
    qed
  qed
qed

lemma resolve_params_literals:
  "\<forall>p \<in> set ps. \<not> symbolic nm p \<Longrightarrow> resolve_params nm dev ps = (dev, Inr (map Lit ps))"
proof (induction ps)
  case Nil
  show ?case by simp
next
  case (Cons p ps)
  then have f: "\<not> symbolic nm p" and r: "resolve_params nm dev ps = (dev, Inr (map Lit ps))"
    by simp_all
  show ?case by (simp only: resolve_params_Cons_literal [OF f] r) simp
qed

subsection \<open>Helper facts: the loop over the operations\<close>

lemma map_wires_error: "map_wires wm ws = Inl e \<Longrightarrow> e = WireError"
  by (induction ws arbitrary: e) (auto split: option.splits dest!: and_then_Inl)

lemma map_wires_ok: "list_all (dict_contains wm) ws \<Longrightarrow> \<exists>qs. map_wires wm ws = Inr qs"
  by (induction ws) (auto simp: dict_contains_def)

lemma map_wires_Inr: "map_wires wm ws = Inr qs \<Longrightarrow> list_all (dict_contains wm) ws"
proof (induction ws arbitrary: qs)
  case Nil
  show ?case by simp
next
  case (Cons w ws)
  then show ?case
    by (cases "map_of wm w"; cases "map_wires wm ws") (auto simp: dict_contains_def and_then_def)
qed

lemma resolve_params_result:
  obtains dev' par where "resolve_params nm dev ps = (dev', Inr par)"
  using resolve_params_never_fails [of nm dev ps] by (cases "resolve_params nm dev ps") auto

lemma apply_loop_step:
  assumes "map_wires wm (wires op) = Inr qs"
    and "\<not> (0 < i \<and> name op \<in> set [''QubitStateVector'', ''BasisState''])"
    and "resolve_params (name op) dev (data op) = (dev', Inr par)"
  shows "apply_loop om wm dev i (op # rest) acc =
     (case map_of om (name op) of
        None \<Rightarrow> (dev', Inl (KeyError (StrKey (name op))))
      | Some gate \<Rightarrow> apply_loop om wm dev' (Suc i) rest (acc @ gate par qs))"
  using assms by (auto simp: dict_getitem_def split: option.splits)

lemma apply_loop_wire_error:
  assumes "map_wires wm (wires op) = Inl e"
  shows "apply_loop om wm dev i (op # rest) acc = (dev, Inl e)"
  using assms by simp

lemma apply_loop_state_prep:
  assumes "map_wires wm (wires op) = Inr qs"
    and "0 < i \<and> name op \<in> set [''QubitStateVector'', ''BasisState'']"
  shows "apply_loop om wm dev i (op # rest) acc =
     (dev, Inl (DeviceError (state_prep_message (name op) (short_name dev))))"
  using assms by auto

declare apply_loop.simps(2) [simp del]

text \<open>One iteration of the loop for an operation that passes.\<close>

lemma apply_loop_pass:
  assumes "passes om wm i op"
  obtains gate qs par where
    "map_of om (name op) = Some gate" "map_wires wm (wires op) = Inr qs"
    "snd (resolve_params (name op) dev (data op)) = Inr par"
    "apply_loop om wm dev i (op # rest) acc =
       apply_loop om wm (fst (resolve_params (name op) dev (data op))) (Suc i) rest (acc @ gate par qs)"
proof -
  from assms obtain qs where qs: "map_wires wm (wires op) = Inr qs"
    using map_wires_ok by (auto simp: passes_def)
  from assms obtain gate where g: "map_of om (name op) = Some gate"
    by (auto simp: passes_def dict_contains_def)
  obtain dev' par where r: "resolve_params (name op) dev (data op) = (dev', Inr par)"
    by (rule resolve_params_result)
  from assms have np: "\<not> (i > 0 \<and> name op \<in> set [''QubitStateVector'', ''BasisState''])"
    by (simp add: passes_def)
  have "apply_loop om wm dev i (op # rest) acc =
       apply_loop om wm (fst (resolve_params (name op) dev (data op))) (Suc i) rest (acc @ gate par qs)"
    by (simp add: apply_loop_step [OF qs np r] g r)
  with g qs r show ?thesis using that by simp
qed

lemma resolve_all_Cons:
  "resolve_all dev (op # ops) = resolve_all (fst (resolve_params (name op) dev (data op))) ops"
  by (simp add: resolve_all_def)

lemma resolve_all_Nil: "resolve_all dev [] = dev"
  by (simp add: resolve_all_def)

lemma resolve_all_append:
  "resolve_all dev (xs @ ys) = resolve_all (resolve_all dev xs) ys"
  by (simp add: resolve_all_def)

lemma resolve_all_short_name: "short_name (resolve_all dev ops) = short_name dev"
  by (induction ops arbitrary: dev) (simp_all add: resolve_all_Nil resolve_all_Cons resolve_params_short_name)

lemma resolve_all_consistent:
  "handles_consistent dev \<Longrightarrow> handles_consistent (resolve_all dev ops)"
  by (induction ops arbitrary: dev) (simp_all add: resolve_all_Nil resolve_all_Cons resolve_params_consistent)

lemma resolve_all_no_symbolic:
  "\<forall>op \<in> set ops. \<forall>p \<in> set (data op). \<not> symbolic (name op) p \<Longrightarrow> resolve_all dev ops = dev"
  by (induction ops arbitrary: dev) (simp_all add: resolve_all_Nil resolve_all_Cons resolve_params_no_symbolic)

lemma apply_loop_prefix:
  "all_pass om wm i pre \<Longrightarrow>
   \<exists>acc'. apply_loop om wm dev i (pre @ rest) acc
          = apply_loop om wm (resolve_all dev pre) (i + length pre) rest acc'"
proof (induction pre arbitrary: dev i acc)
  case Nil
  show ?case by (auto simp: resolve_all_Nil)
next
  case (Cons op pre)
  from Cons.prems have p: "passes om wm i op" and a: "all_pass om wm (Suc i) pre" by simp_all
  from p obtain gate qs par where
    step: "apply_loop om wm dev i (op # (pre @ rest)) acc =
       apply_loop om wm (fst (resolve_params (name op) dev (data op))) (Suc i) (pre @ rest) (acc @ gate par qs)"
    by (rule apply_loop_pass)
  from Cons.IH [OF a, of "fst (resolve_params (name op) dev (data op))" "acc @ gate par qs"]
  show ?case by (simp add: step resolve_all_Cons)
qed

lemma apply_loop_prefix_consistent:
  "all_pass om wm i pre \<Longrightarrow> handles_consistent dev \<Longrightarrow>
   apply_loop om wm dev i (pre @ rest) acc
     = apply_loop om wm (resolve_all dev pre) (i + length pre) rest
         (acc @ concat (map (emit om wm) pre))"
proof (induction pre arbitrary: dev i acc)
  case Nil
  show ?case by (simp add: resolve_all_Nil)
next
  case (Cons op pre)
  from Cons.prems have p: "passes om wm i op" and a: "all_pass om wm (Suc i) pre" by simp_all
  from p obtain gate qs par where
    g: "map_of om (name op) = Some gate" and qs: "map_wires wm (wires op) = Inr qs"
    and r: "snd (resolve_params (name op) dev (data op)) = Inr par"
    and step: "apply_loop om wm dev i (op # (pre @ rest)) acc =
       apply_loop om wm (fst (resolve_params (name op) dev (data op))) (Suc i) (pre @ rest) (acc @ gate par qs)"
    by (rule apply_loop_pass)
  from resolve_params_consistent [OF Cons.prems(2), of "name op" "data op"] r
  have c: "handles_consistent (fst (resolve_params (name op) dev (data op)))"
    and par: "par = map (resolved_arg (name op)) (data op)" by simp_all
  have e: "emit om wm op = gate par qs" by (simp add: emit_def g qs par)
  let ?d = "fst (resolve_params (name op) dev (data op))"
  have "apply_loop om wm dev i ((op # pre) @ rest) acc
        = apply_loop om wm ?d (Suc i) (pre @ rest) (acc @ gate par qs)"
    using step by simp
  also have "\<dots> = apply_loop om wm (resolve_all ?d pre) (Suc i + length pre) rest
                     ((acc @ gate par qs) @ concat (map (emit om wm) pre))"
    by (rule Cons.IH [OF a c])
  also have "\<dots> = apply_loop om wm (resolve_all dev (op # pre)) (i + length (op # pre)) rest
                     (acc @ concat (map (emit om wm) (op # pre)))"
    by (simp add: resolve_all_Cons e)
  finally show ?case .
qed

lemma apply_loop_success_all_pass:
  "snd (apply_loop om wm dev i ops acc) = Inr prg \<Longrightarrow> all_pass om wm i ops"
proof (induction ops arbitrary: dev i acc)
  case Nil
  show ?case by simp
next
  case (Cons op ops)
  obtain dev' par where r: "resolve_params (name op) dev (data op) = (dev', Inr par)"
    by (rule resolve_params_result)
  from Cons.prems obtain qs where qs: "map_wires wm (wires op) = Inr qs"
    by (cases "map_wires wm (wires op)") (simp_all add: apply_loop_wire_error)
  from Cons.prems qs have np: "\<not> (i > 0 \<and> name op \<in> set [''QubitStateVector'', ''BasisState''])"
    using apply_loop_state_prep [OF qs, of i om dev ops acc] by auto
  from Cons.prems obtain gate where g: "map_of om (name op) = Some gate"
    and rest: "snd (apply_loop om wm dev' (Suc i) ops (acc @ gate par qs)) = Inr prg"
    by (cases "map_of om (name op)") (simp_all add: apply_loop_step [OF qs np r])
  from qs np g have "passes om wm i op"
    by (simp add: passes_def dict_contains_def map_wires_Inr)
  with Cons.IH [OF rest] show ?case by simp
qed

lemma apply_loop_device_error:
  "snd (apply_loop om wm dev i ops acc) = Inl (DeviceError m) \<Longrightarrow>
   \<exists>j < length ops. 0 < i + j \<and> name (ops ! j) \<in> set [''QubitStateVector'', ''BasisState'']
      \<and> m = state_prep_message (name (ops ! j)) (short_name dev)"
proof (induction ops arbitrary: dev i acc)
  case Nil
  then show ?case by simp
next
  case (Cons op ops)
  obtain dev' par where r: "resolve_params (name op) dev (data op) = (dev', Inr par)"
    by (rule resolve_params_result)
  have sn: "short_name dev' = short_name dev"
    using resolve_params_short_name [of "name op" dev "data op"] r by simp
  show ?case
  proof (cases "map_wires wm (wires op)")
    case (Inl e)
    with Cons.prems have "e = DeviceError m" by (simp add: apply_loop_wire_error)
    with map_wires_error [OF Inl] show ?thesis by simp
  next
    case (Inr qs)
    show ?thesis
    proof (cases "i > 0 \<and> name op \<in> set [''QubitStateVector'', ''BasisState'']")
      case True
      with Cons.prems Inr have "m = state_prep_message (name op) (short_name dev)"
        by (simp add: apply_loop_state_prep [OF Inr True])
      with True show ?thesis by (intro exI [of _ 0]) simp
    next
      case False
      show ?thesis
      proof (cases "map_of om (name op)")
        case None
        with Cons.prems show ?thesis by (simp add: apply_loop_step [OF Inr False r])
      next
        case (Some gate)
        with Cons.prems
        have "snd (apply_loop om wm dev' (Suc i) ops (acc @ gate par qs)) = Inl (DeviceError m)"
          by (simp add: apply_loop_step [OF Inr False r])
        from Cons.IH [OF this] obtain j where
          "j < length ops" "0 < Suc i + j" "name (ops ! j) \<in> set [''QubitStateVector'', ''BasisState'']"
          "m = state_prep_message (name (ops ! j)) (short_name dev')" by blast
        then show ?thesis using sn by (intro exI [of _ "Suc j"]) simp
      qed
    qed
  qed
qed

lemma apply_loop_state_prep_fails:
  "j < length ops \<Longrightarrow> 0 < i + j \<Longrightarrow> name (ops ! j) \<in> set [''QubitStateVector'', ''BasisState''] \<Longrightarrow>
   \<exists>e. snd (apply_loop om wm dev i ops acc) = Inl e"
proof (induction ops arbitrary: dev i j acc)
  case Nil
  then show ?case by simp
next
  case (Cons op ops)
  obtain dev' par where r: "resolve_params (name op) dev (data op) = (dev', Inr par)"
    by (rule resolve_params_result)
  show ?case
  proof (cases "map_wires wm (wires op)")
    case (Inl e)
    then show ?thesis by (simp add: apply_loop_wire_error)
  next
    case (Inr qs)
    show ?thesis
    proof (cases "i > 0 \<and> name op \<in> set [''QubitStateVector'', ''BasisState'']")
      case True
      show ?thesis by (simp add: apply_loop_state_prep [OF Inr True])
    next
      case False
      show ?thesis
      proof (cases "map_of om (name op)")
        case None
        then show ?thesis by (simp add: apply_loop_step [OF Inr False r])
      next
        case (Some gate)
        from False Cons.prems obtain j' where j: "j = Suc j'"
          by (cases j) auto
        with Cons.prems have "j' < length ops" "0 < Suc i + j'"
          "name (ops ! j') \<in> set [''QubitStateVector'', ''BasisState'']" by simp_all
        from Cons.IH [OF this, of dev' "acc @ gate par qs"]
        show ?thesis using Some by (simp add: apply_loop_step [OF Inr False r])
      qed
    qed
  qed
qed

lemma apply_loop_consistent:
  "handles_consistent dev \<Longrightarrow> handles_consistent (fst (apply_loop om wm dev i ops acc))"
proof (induction ops arbitrary: dev i acc)
  case Nil
  then show ?case by simp
next
  case (Cons op ops)
  obtain dev' par where r: "resolve_params (name op) dev (data op) = (dev', Inr par)"
    by (rule resolve_params_result)
  from resolve_params_consistent [OF Cons.prems, of "name op" "data op"] r
  have c: "handles_consistent dev'" by simp
  show ?case
  proof (cases "map_wires wm (wires op)")
    case (Inl e)
    then show ?thesis using Cons.prems by (simp add: apply_loop_wire_error)
  next
    case (Inr qs)
    show ?thesis
    proof (cases "i > 0 \<and> name op \<in> set [''QubitStateVector'', ''BasisState'']")
      case True
      show ?thesis using Cons.prems by (simp add: apply_loop_state_prep [OF Inr True])
    next
      case False
      show ?thesis using c Cons.IH [OF c]
        by (simp add: apply_loop_step [OF Inr False r] split: option.splits)
    qed
  qed
qed

subsection \<open>Order of state preparations\<close>




text \<open>The same \<open>BasisState\<close> as the first operation: the build succeeds.\<close>

lemma state_preparation_first:
  "snd (apply_parametric_operations
     [(''Hadamard'', gate_of ''H''), (''BasisState'', gate_of ''X'')] [(0::nat, 0), (1, 1)]
     (new_device True ''2q-qvm'' ''forest.qvm'' :: (string \<times> int arg list \<times> nat list, int, unit) device)
     [\<lparr>name = ''BasisState'', data = [\<lparr>pid = 8, requires_grad = False, unwrap = 1\<rparr>], wires = [0, 1]\<rparr>,
      \<lparr>name = ''Hadamard'', data = [], wires = [0]\<rparr>])
   = Inr [(''X'', [Lit \<lparr>pid = 8, requires_grad = False, unwrap = 1\<rparr>], [0, 1]), (''H'', [], [0])]"
  by code_simp

subsection \<open>Unsupported operations\<close>




subsection \<open>Handles are keyed by the identity of the parameter\<close>

text \<open>
  Claim C6. In a device whose binding table is consistent (as after a reset), the
  inner loop replaces every differentiable parameter outside a \<open>BasisState\<close> by the
  handle \<open>param_handle\<close> of its identity, which is the handle the table then holds
  under the name of that identity; two parameters have the same handle exactly when
  they are the same object, whatever their values; and the table stays consistent
  through the inner loop and through a whole build: one handle per name and one
  declaration per region.
\<close>

theorem handles_keyed_by_identity:
  "handles_consistent dev \<longrightarrow>
     snd (resolve_params nm dev ps)
       = Inr (map (\<lambda>p. if symbolic nm p then Ref (param_handle p) else Lit p) ps)
     \<and> (\<forall>p \<in> set ps. symbolic nm p \<longrightarrow>
          map_of (p_parameter_reference_map (fst (resolve_params nm dev ps)))
            (''theta'' @ str_nat (pid p)) = Some (param_handle p))
     \<and> (\<forall>p q :: 'v param. (param_handle p = param_handle q) = (pid p = pid q))
     \<and> handles_consistent (fst (resolve_params nm dev ps))
     \<and> handles_consistent (fst (apply_parametric_operations om wm dev ops))"
proof (intro impI conjI)
  assume c: "handles_consistent dev"
  have "map (resolved_arg nm) ps = map (\<lambda>p. if symbolic nm p then Ref (param_handle p) else Lit p) ps"
    by (simp add: resolved_arg_def)
  with resolve_params_consistent [OF c, of nm ps]
  show "snd (resolve_params nm dev ps)
       = Inr (map (\<lambda>p. if symbolic nm p then Ref (param_handle p) else Lit p) ps)" by simp
  show "\<forall>p \<in> set ps. symbolic nm p \<longrightarrow>
          map_of (p_parameter_reference_map (fst (resolve_params nm dev ps)))
            (''theta'' @ str_nat (pid p)) = Some (param_handle p)"
    using resolve_params_has_handle [OF c] by blast
  show "\<forall>p q :: 'v param. (param_handle p = param_handle q) = (pid p = pid q)"
    by (simp add: param_handle_eq)
  show "handles_consistent (fst (resolve_params nm dev ps))"
    using resolve_params_consistent [OF c] by blast
  show "handles_consistent (fst (apply_parametric_operations om wm dev ops))"
    unfolding apply_parametric_operations_def by (rule apply_loop_consistent [OF c])
qed

theorem handles_keyed_by_identity_witness:
  "snd (resolve_params ''RX''
        (new_device True ''2q-qvm'' ''forest.qvm'' :: (string \<times> int arg list \<times> nat list, int, unit) device)
        [\<lparr>pid = 7, requires_grad = True, unwrap = 3\<rparr>,
         \<lparr>pid = 9, requires_grad = True, unwrap = 3\<rparr>,
         \<lparr>pid = 7, requires_grad = True, unwrap = 3\<rparr>])
   = Inr [Ref (MemoryReference ''theta7''), Ref (MemoryReference ''theta9''),
          Ref (MemoryReference ''theta7'')]
   \<and> p_parameter_reference_map (fst (resolve_params ''RX''
        (new_device True ''2q-qvm'' ''forest.qvm'' :: (string \<times> int arg list \<times> nat list, int, unit) device)
        [\<lparr>pid = 7, requires_grad = True, unwrap = 3\<rparr>,
         \<lparr>pid = 9, requires_grad = True, unwrap = 3\<rparr>,
         \<lparr>pid = 7, requires_grad = True, unwrap = 3\<rparr>]))
     = [(''theta7'', MemoryReference ''theta7''), (''theta9'', MemoryReference ''theta9'')]"
proof -
  let ?dev = "new_device True ''2q-qvm'' ''forest.qvm'' :: (string \<times> int arg list \<times> nat list, int, unit) device"
  let ?ps = "[\<lparr>pid = 7, requires_grad = True, unwrap = 3::int\<rparr>,
         \<lparr>pid = 9, requires_grad = True, unwrap = 3\<rparr>,
         \<lparr>pid = 7, requires_grad = True, unwrap = 3\<rparr>]"
  have c: "handles_consistent ?dev" by code_simp
  have "snd (resolve_params ''RX'' ?dev ?ps)
       = Inr (map (\<lambda>p. if symbolic ''RX'' p then Ref (param_handle p) else Lit p) ?ps)"
    using handles_keyed_by_identity [where dev = ?dev and nm = "''RX''" and ps = ?ps] c
    by blast
  moreover have "map (\<lambda>p. if symbolic ''RX'' p then Ref (param_handle p) else Lit p) ?ps
    = [Ref (MemoryReference ''theta7''), Ref (MemoryReference ''theta9''),
          Ref (MemoryReference ''theta7'')]"
    by code_simp
  moreover have "p_parameter_reference_map (fst (resolve_params ''RX'' ?dev ?ps))
     = [(''theta7'', MemoryReference ''theta7''), (''theta9'', MemoryReference ''theta9'')]"
    by code_simp
  ultimately show ?thesis by simp
qed

subsection \<open>Which parameters become handles\<close>

text \<open>
  Claim C7, as stated, fails: the builder exempts the parameters of \<open>BasisState\<close>
  only. A differentiable parameter of \<open>QubitStateVector\<close> gets a handle, which
  replaces it in the instruction when the operation is supported, and which is
  created in the binding table even when it is not.
\<close>

theorem parameters_resolved_counterexample:
  "apply_parametric_operations
     [(''QubitStateVector'', gate_of ''PREP'')] [(0::nat, 0), (1, 1)]
     (new_device True ''2q-qvm'' ''forest.qvm'' :: (string \<times> int arg list \<times> nat list, int, unit) device)
     [\<lparr>name = ''QubitStateVector'', data = [\<lparr>pid = 7, requires_grad = True, unwrap = 3\<rparr>],
       wires = [0]\<rparr>]
   = ((new_device True ''2q-qvm'' ''forest.qvm'')
        \<lparr>p_parameter_map := [(''theta7'', [3])],
         p_parameter_reference_map := [(''theta7'', MemoryReference ''theta7'')],
         prog := \<lparr>declarations = [(''theta7'', ''REAL'')], instructions = [], memory = [],
                  num_shots = 0\<rparr>\<rparr>,
      Inr [(''PREP'', [Ref (MemoryReference ''theta7'')], [0])])
   \<and> p_parameter_reference_map (fst (apply_parametric_operations
       ([] :: (string \<times> (int arg list \<Rightarrow> nat list \<Rightarrow> (string \<times> int arg list \<times> nat list) list)) list)
       [(0::nat, 0), (1, 1)]
       (new_device True ''2q-qvm'' ''forest.qvm'' :: (string \<times> int arg list \<times> nat list, int, unit) device)
       [\<lparr>name = ''QubitStateVector'', data = [\<lparr>pid = 7, requires_grad = True, unwrap = 3\<rparr>],
         wires = [0]\<rparr>]))
     = [(''theta7'', MemoryReference ''theta7'')]"
  by code_simp

text \<open>
  Claim C7, amended. A successful build from a consistent binding table emits, for each
  operation, the instructions of its gate with every parameter that is differentiable
  and does not belong to a \<open>BasisState\<close> operation replaced by its handle, and every
  other parameter passed as it is; and where no parameter is of the first kind the
  inner loop creates no handle and changes nothing in the device.
\<close>

theorem parameters_resolved:
  "(handles_consistent dev \<and> snd (apply_parametric_operations om wm dev ops) = Inr prg
      \<longrightarrow> prg = concat (map (emit om wm) ops) \<and> all_pass om wm 0 ops)
   \<and> ((\<forall>p \<in> set ps. \<not> symbolic nm p)
      \<longrightarrow> resolve_params nm dev ps = (dev, Inr (map Lit ps)))"
proof (intro conjI impI)
  assume a: "handles_consistent dev \<and> snd (apply_parametric_operations om wm dev ops) = Inr prg"
  then have s: "snd (apply_loop om wm dev 0 ops []) = Inr prg"
    by (simp add: apply_parametric_operations_def)
  from apply_loop_success_all_pass [OF s] show ap: "all_pass om wm 0 ops" .
  from apply_loop_prefix_consistent [OF ap, of dev "[]" "[]"] a s
  show "prg = concat (map (emit om wm) ops)" by simp
next
  assume "\<forall>p \<in> set ps. \<not> symbolic nm p"
  then show "resolve_params nm dev ps = (dev, Inr (map Lit ps))"
    by (rule resolve_params_literals)
qed

theorem parameters_resolved_witness:
  "snd (apply_parametric_operations
     [(''RX'', gate_of ''RX''), (''BasisState'', gate_of ''X'')] [(0::nat, 0), (1, 1)]
     (new_device True ''2q-qvm'' ''forest.qvm'' :: (string \<times> int arg list \<times> nat list, int, unit) device)
     [\<lparr>name = ''BasisState'', data = [\<lparr>pid = 4, requires_grad = True, unwrap = 1\<rparr>], wires = [0, 1]\<rparr>,
      \<lparr>name = ''RX'', data = [\<lparr>pid = 7, requires_grad = True, unwrap = 3\<rparr>,
                             \<lparr>pid = 9, requires_grad = False, unwrap = 3\<rparr>], wires = [0]\<rparr>])
   = Inr [(''X'', [Lit \<lparr>pid = 4, requires_grad = True, unwrap = 1\<rparr>], [0, 1]),
          (''RX'', [Ref (MemoryReference ''theta7''),
                   Lit \<lparr>pid = 9, requires_grad = False, unwrap = 3\<rparr>], [0])]
   \<and> resolve_params ''RX''
        (new_device True ''2q-qvm'' ''forest.qvm'' :: (string \<times> int arg list \<times> nat list, int, unit) device)
        [\<lparr>pid = 9, requires_grad = False, unwrap = 3\<rparr>]
      = (new_device True ''2q-qvm'' ''forest.qvm'', Inr [Lit \<lparr>pid = 9, requires_grad = False, unwrap = 3\<rparr>])"
proof -
  let ?om = "[(''RX'', gate_of ''RX''), (''BasisState'', gate_of ''X'')]
               :: (string \<times> (int arg list \<Rightarrow> nat list \<Rightarrow> (string \<times> int arg list \<times> nat list) list)) list"
  let ?wm = "[(0::nat, 0::nat), (1, 1)]"
  let ?dev = "new_device True ''2q-qvm'' ''forest.qvm'' :: (string \<times> int arg list \<times> nat list, int, unit) device"
  let ?ops = "[\<lparr>name = ''BasisState'', data = [\<lparr>pid = 4, requires_grad = True, unwrap = 1::int\<rparr>], wires = [0::nat, 1]\<rparr>,
      \<lparr>name = ''RX'', data = [\<lparr>pid = 7, requires_grad = True, unwrap = 3\<rparr>,
                             \<lparr>pid = 9, requires_grad = False, unwrap = 3\<rparr>], wires = [0]\<rparr>]"
  let ?prg = "[(''X'', [Lit \<lparr>pid = 4, requires_grad = True, unwrap = 1::int\<rparr>], [0::nat, 1]),
          (''RX'', [Ref (MemoryReference ''theta7''),
                   Lit \<lparr>pid = 9, requires_grad = False, unwrap = 3\<rparr>], [0])]"
  let ?ps = "[\<lparr>pid = 9, requires_grad = False, unwrap = 3::int\<rparr>]"
  have ok: "snd (apply_parametric_operations ?om ?wm ?dev ?ops) = Inr ?prg"
    by code_simp
  have c: "handles_consistent ?dev" by code_simp
  have lit: "\<forall>p \<in> set ?ps. \<not> symbolic ''RX'' p" by (simp add: symbolic_def)
  have "?prg = concat (map (emit ?om ?wm) ?ops)
        \<and> resolve_params ''RX'' ?dev ?ps = (?dev, Inr (map Lit ?ps))"
    using parameters_resolved [where om = ?om and wm = ?wm and dev = ?dev and ops = ?ops
        and prg = ?prg and ps = ?ps and nm = "''RX''"] ok c lit
    by blast
  with ok show ?thesis by simp
qed

subsection \<open>Helper facts: the compilation cache\<close>

lemma generate_samples_calls:
  assumes "generate_samples compile run dev = (dev', calls, res)"
  shows "calls = [] \<or> (\<exists>p a. calls = [(p, a)])"
  using assms
  by (auto simp: generate_samples_def Let_def split: option.splits sum.splits if_splits)

lemma generate_samples_keeps_cache:
  assumes "generate_samples compile run dev = (dev', calls, res)"
    and "dict_contains (p_compiled_program_dict dev) h"
  shows "dict_contains (p_compiled_program_dict dev') h"
  using assms
  by (auto simp: generate_samples_def Let_def dict_contains_def update_conv'
      split: option.splits sum.splits if_splits)

lemma generate_samples_hit:
  assumes "generate_samples compile run dev = (dev', calls, res)"
    and "circuit_hash dev = Some h" and "dict_contains (p_compiled_program_dict dev) h"
  shows "calls = []"
  using assms
  by (auto simp: generate_samples_def Let_def dict_contains_def circuit_hash_def
      split: option.splits sum.splits if_splits)

lemma generate_samples_caches:
  assumes "generate_samples compile run dev = (dev', calls, res)"
    and "circuit_hash dev = Some h" and "calls = [(p, Inr x)]"
  shows "dict_contains (p_compiled_program_dict dev') h"
  using assms
  by (auto simp: generate_samples_def Let_def dict_contains_def circuit_hash_def update_conv'
      dict_getitem_def split: option.splits sum.splits if_splits)

lemma execute_set_hash_dict [simp]:
  "p_compiled_program_dict (execute_set_hash dev h') = p_compiled_program_dict dev"
  by (simp add: execute_set_hash_def)

lemma reset_dict [simp]:
  "p_compiled_program_dict (reset dev fresh) = p_compiled_program_dict dev"
  by (simp add: reset_def Let_def)

lemma lifetime_generate:
  assumes "generate_samples compile run dev = (dev', calls, res)"
  shows "snd (lifetime dev (GenerateSamples compile run # es)) =
     map (\<lambda>(p, a). \<lparr>call_hash = circuit_hash dev, call_program = p, call_answer = a\<rparr>) calls
     @ snd (lifetime dev' es)"
  using assms by (simp split: prod.splits)

lemma cached_never_compiled:
  "dict_contains (p_compiled_program_dict dev) h \<Longrightarrow> compiles_for h (snd (lifetime dev es)) = []"
proof (induction es arbitrary: dev)
  case Nil
  show ?case by (simp add: compiles_for_def)
next
  case (Cons e es)
  show ?case
  proof (cases e)
    case (Execute h')
    with Cons show ?thesis by simp
  next
    case (Reset fresh)
    with Cons show ?thesis by simp
  next
    case (Build p pm rm)
    with Cons show ?thesis by simp
  next
    case (GenerateSamples compile run)
    obtain dev' calls res where g: "generate_samples compile run dev = (dev', calls, res)"
      by (cases "generate_samples compile run dev") auto
    from generate_samples_keeps_cache [OF g Cons.prems]
    have later: "compiles_for h (snd (lifetime dev' es)) = []" by (rule Cons.IH)
    have now: "compiles_for h
        (map (\<lambda>(p, a). \<lparr>call_hash = circuit_hash dev, call_program = p, call_answer = a\<rparr>) calls) = []"
    proof (cases "circuit_hash dev = Some h")
      case True
      from generate_samples_hit [OF g True Cons.prems] show ?thesis
        by (simp add: compiles_for_def)
    next
      case False
      then show ?thesis by (auto simp: compiles_for_def filter_empty_conv)
    qed
    show ?thesis
      using now later unfolding GenerateSamples lifetime_generate [OF g]
      by (simp add: compiles_for_def)
  qed
qed

lemma nothing_after_success:
  "Suc i < length (compiles_for h (snd (lifetime dev es))) \<Longrightarrow>
   \<not> returned (compiles_for h (snd (lifetime dev es)) ! i)"
proof (induction es arbitrary: dev i)
  case Nil
  then show ?case by (simp add: compiles_for_def)
next
  case (Cons e es)
  show ?case
  proof (cases e)
    case (Execute h')
    with Cons show ?thesis by simp
  next
    case (Reset fresh)
    with Cons show ?thesis by simp
  next
    case (Build p pm rm)
    with Cons show ?thesis by simp
  next
    case (GenerateSamples compile run)
    obtain dev' calls res where g: "generate_samples compile run dev = (dev', calls, res)"
      by (cases "generate_samples compile run dev") auto
    let ?later = "compiles_for h (snd (lifetime dev' es))"
    let ?now = "compiles_for h
        (map (\<lambda>(p, a). \<lparr>call_hash = circuit_hash dev, call_program = p, call_answer = a\<rparr>) calls)"
    have split: "compiles_for h (snd (lifetime dev (e # es))) = ?now @ ?later"
      unfolding GenerateSamples lifetime_generate [OF g] by (simp add: compiles_for_def)
    show ?thesis
    proof (cases "?now = []")
      case True
      with Cons.prems Cons.IH [of i dev'] show ?thesis by (simp add: split)
    next
      case False
      with generate_samples_calls [OF g] obtain p a where
        calls: "calls = [(p, a)]" and hash: "circuit_hash dev = Some h"
        by (auto simp: compiles_for_def split: if_splits)
      then have now: "?now = [\<lparr>call_hash = Some h, call_program = p, call_answer = a\<rparr>]"
        by (simp add: compiles_for_def)
      show ?thesis
      proof (cases a)
        case (Inl err)
        show ?thesis
        proof (cases i)
          case 0
          then show ?thesis by (simp add: split now returned_def Inl)
        next
          case (Suc i')
          with Cons.prems have "Suc i' < length ?later" by (simp add: split now)
          from Cons.IH [OF this] show ?thesis by (simp add: split now Suc)
        qed
      next
        case (Inr x)
        with calls have "calls = [(p, Inr x)]" by simp
        from generate_samples_caches [OF g hash this]
        have "?later = []" by (rule cached_never_compiled)
        with Cons.prems show ?thesis by (simp add: split now)
      qed
    qed
  qed
qed

lemma filter_only_last:
  "(\<And>i. Suc i < length xs \<Longrightarrow> \<not> P (xs ! i)) \<Longrightarrow> length (filter P xs) \<le> 1"
proof (induction xs rule: rev_induct)
  case Nil
  show ?case by simp
next
  case (snoc x xs)
  have "filter P xs = []"
  proof -
    have "\<forall>y \<in> set xs. \<not> P y"
    proof
      fix y assume "y \<in> set xs"
      then obtain i where i: "i < length xs" "xs ! i = y" by (auto simp: in_set_conv_nth)
      with snoc.prems [of i] show "\<not> P y" by (simp add: nth_append)
    qed
    then show ?thesis by (simp add: filter_empty_conv)
  qed
  then show ?case by simp
qed

lemma all_only_last:
  "(\<And>i. Suc i < length xs \<Longrightarrow> \<not> P (xs ! i)) \<Longrightarrow> \<forall>x \<in> set xs. P x \<Longrightarrow> length xs \<le> 1"
proof (rule ccontr)
  assume a: "\<And>i. Suc i < length xs \<Longrightarrow> \<not> P (xs ! i)" and b: "\<forall>x \<in> set xs. P x"
    and c: "\<not> length xs \<le> 1"
  then have l: "Suc 0 < length xs" by simp
  then have "xs ! 0 \<in> set xs" by (intro nth_mem) arith
  with a [OF l] b show False by blast
qed

lemma generate_samples_on_hit:
  assumes "parametric_compilation dev" and "\<not> str_contains (qc_name dev) ''pyqvm''"
    and "p_circuit_hash dev = Some h" and "map_of (p_compiled_program_dict dev) h = Some y"
  shows "fst (snd (generate_samples compile run dev)) = []
     \<and> p_compiled_program (fst (generate_samples compile run dev)) = Some y
     \<and> p_compiled_program_dict (fst (generate_samples compile run dev)) = p_compiled_program_dict dev"
  using assms
  by (simp add: generate_samples_def Let_def circuit_hash_def dict_contains_def dict_getitem_def)

lemma generate_samples_on_miss:
  assumes "parametric_compilation dev" and "\<not> str_contains (qc_name dev) ''pyqvm''"
    and "p_circuit_hash dev = Some h" and "map_of (p_compiled_program_dict dev) h = None"
    and "\<forall>p. compile p = Inr x"
  shows "length (fst (snd (generate_samples compile run dev))) = 1
     \<and> map_of (p_compiled_program_dict (fst (generate_samples compile run dev))) h = Some x
     \<and> p_compiled_program (fst (generate_samples compile run dev)) = Some x"
  using assms
  by (simp add: generate_samples_def Let_def circuit_hash_def dict_contains_def dict_getitem_def
      update_conv')

subsection \<open>At most one compilation per circuit hash\<close>




subsection \<open>The tensor contraction on a known state\<close>

text \<open>
  Claim C2. In a device of 2 qubits, \<open>mat_vec_product\<close> of the Pauli-X matrix and the
  state \<open>[1, 0, 0, 0]\<close> is \<open>[0, 0, 1, 0]\<close> when the target is qubit 0 and
  \<open>[0, 1, 0, 0]\<close> when the target is qubit 1: qubit 0 is the most significant bit of
  the position in the state vector.
\<close>

theorem mat_vec_product_pauli_x:
  "mat_vec_product 2 \<lparr>shape = [2, 2], data = [0, 1, 1, 0 :: complex]\<rparr>
     \<lparr>shape = [4], data = [1, 0, 0, 0]\<rparr> [0]
   = Inr \<lparr>shape = [4], data = [0, 0, 1, 0]\<rparr>
   \<and> mat_vec_product 2 \<lparr>shape = [2, 2], data = [0, 1, 1, 0 :: complex]\<rparr>
     \<lparr>shape = [4], data = [1, 0, 0, 0]\<rparr> [1]
   = Inr \<lparr>shape = [4], data = [0, 1, 0, 0]\<rparr>"
  by code_simp

subsection \<open>The shape check of \<open>mat_vec_product\<close>\<close>

text \<open>
  Claim C8. \<open>mat_vec_product\<close> raises the \<open>ValueError\<close> whose message names the
  expected shape, \<open>2^k x 2^k\<close> for \<open>k\<close> target wires, exactly when the shape of the
  matrix is not \<open>(2^k, 2^k)\<close>: always when the shape differs, never when it matches
  (every other failure is an exception of numpy's).
\<close>

theorem mat_vec_product_shape_error:
  "(mat_vec_product n mat vec labels = Inl (ValueError (shape_message (length labels))))
   = (shape mat \<noteq> [2 ^ length labels, 2 ^ length labels])"
proof (cases "shape mat = [2 ^ length labels, 2 ^ length labels]")
  case False
  then show ?thesis by (simp add: mat_vec_product_def)
next
  case True
  have "mat_vec_product n mat vec labels \<noteq> Inl (ValueError (shape_message (length labels)))"
  proof
    assume "mat_vec_product n mat vec labels = Inl (ValueError (shape_message (length labels)))"
    with True have "ValueError (shape_message (length labels)) = NumpyError"
      unfolding mat_vec_product_def Let_def by (auto dest: numpy_part_error)
    then show False by simp
  qed
  with True show ?thesis by simp
qed

text \<open>A \<open>4 x 4\<close> matrix against a single target qubit, and the message raised.\<close>

lemma mat_vec_product_4x4_one_wire:
  "mat_vec_product 2 \<lparr>shape = [4, 4], data = replicate 16 (0::complex)\<rparr>
     \<lparr>shape = [4], data = [1, 0, 0, 0]\<rparr> [0]
   = Inl (ValueError ''Please specify a 2 x 2 matrix for 1 wires.'')"
  by code_simp

subsection \<open>Helper facts: multi-indices, positions and argsort\<close>

lemma length_unravel [simp]: "length (unravel s i) = length s"
  by (induction s arbitrary: i) simp_all

lemma unravel_in_bounds: "i < prod_list s \<Longrightarrow> list_all2 (<) (unravel s i) s"
proof (induction s arbitrary: i)
  case Nil
  show ?case by simp
next
  case (Cons d ds)
  from Cons.prems have pos: "0 < prod_list ds" by (cases "prod_list ds = 0") simp_all
  from Cons.prems have "i div prod_list ds < d"
    by (simp add: less_mult_imp_div_less mult.commute)
  moreover from pos have "i mod prod_list ds < prod_list ds" by simp
  ultimately show ?case using Cons.IH by simp
qed

lemma ravel_unravel: "i < prod_list s \<Longrightarrow> ravel s (unravel s i) = i"
proof (induction s arbitrary: i)
  case Nil
  then show ?case by simp
next
  case (Cons d ds)
  from Cons.prems have pos: "0 < prod_list ds" by (cases "prod_list ds = 0") simp_all
  then have "i mod prod_list ds < prod_list ds" by simp
  from Cons.IH [OF this] show ?case by simp
qed

lemma ravel_less: "list_all2 (<) x s \<Longrightarrow> ravel s x < prod_list s"
proof (induction x s rule: list_all2_induct)
  case Nil
  show ?case by simp
next
  case (Cons a x d s)
  have "a * prod_list s + ravel s x < a * prod_list s + prod_list s" using Cons.IH by simp
  also have "\<dots> = Suc a * prod_list s" by simp
  also have "\<dots> \<le> d * prod_list s" using Cons.hyps(1) by (intro mult_le_mono1) simp
  finally show ?case by simp
qed

lemma unravel_ravel: "list_all2 (<) x s \<Longrightarrow> unravel s (ravel s x) = x"
proof (induction x s rule: list_all2_induct)
  case Nil
  show ?case by simp
next
  case (Cons a x d s)
  have r: "ravel s x < prod_list s" using Cons.hyps(2) by (rule ravel_less)
  then have "(a * prod_list s + ravel s x) div prod_list s = a"
    and "(a * prod_list s + ravel s x) mod prod_list s = ravel s x" by simp_all
  with Cons.IH show ?case by simp
qed

lemma ravel_append:
  "length x1 = length s1 \<Longrightarrow>
   ravel (s1 @ s2) (x1 @ x2) = ravel s1 x1 * prod_list s2 + ravel s2 x2"
  by (induction x1 s1 rule: list_induct2) (simp_all add: algebra_simps)

lemma position_nth: "distinct axes \<Longrightarrow> i < length axes \<Longrightarrow> position (axes ! i) axes = i"
proof (induction axes arbitrary: i)
  case Nil
  then show ?case by simp
next
  case (Cons a axes)
  show ?case
  proof (cases i)
    case 0
    then show ?thesis by simp
  next
    case (Suc i')
    with Cons.prems have "axes ! i' \<in> set axes" "a \<notin> set axes" by simp_all
    then have "a \<noteq> axes ! i'" by blast
    with Cons Suc show ?thesis by simp
  qed
qed

lemma position_less: "m \<in> set axes \<Longrightarrow> position m axes < length axes"
  by (induction axes) auto

lemma nth_position: "m \<in> set axes \<Longrightarrow> axes ! position m axes = m"
  by (induction axes) auto

text \<open>A permutation of the axes and its argsort.\<close>

lemma argsort_props:
  "length (argsort perm) = length perm"
  "set (argsort perm) = {0..<length perm}"
  "distinct (argsort perm)"
  by (simp_all add: argsort_def)

lemma argsort_sorted:
  assumes "distinct perm" and "set perm = {0..<length perm}"
  shows "map (\<lambda>i. perm ! i) (argsort perm) = [0..<length perm]"
proof (rule sorted_distinct_set_unique)
  show "sorted (map (\<lambda>i. perm ! i) (argsort perm))" by (simp add: argsort_def)
  have inj: "inj_on (\<lambda>i. perm ! i) {0..<length perm}"
    using assms(1) by (auto simp: inj_on_def nth_eq_iff_index_eq)
  show "distinct (map (\<lambda>i. perm ! i) (argsort perm))"
    by (simp add: distinct_map argsort_props inj)
  show "sorted [0..<length perm]" by simp
  show "distinct [0..<length perm]" by simp
  have "set (map (\<lambda>i. perm ! i) (argsort perm)) = (\<lambda>i. perm ! i) ` {0..<length perm}"
    by (simp add: argsort_props)
  also have "\<dots> = set perm" by (auto simp: set_conv_nth)
  finally show "set (map (\<lambda>i. perm ! i) (argsort perm)) = set [0..<length perm]"
    using assms(2) by simp
qed

lemma position_argsort:
  assumes "distinct perm" and "set perm = {0..<length perm}" and "m < length perm"
  shows "position m (argsort perm) = perm ! m"
proof -
  let ?a = "argsort perm"
  have pm: "perm ! m < length perm" using assms by (metis atLeastLessThan_iff nth_mem)
  then have i: "perm ! m < length ?a" by (simp add: argsort_props)
  have "map (\<lambda>i. perm ! i) ?a ! (perm ! m) = [0..<length perm] ! (perm ! m)"
    by (simp only: argsort_sorted [OF assms(1,2)])
  with i pm have "perm ! (?a ! (perm ! m)) = perm ! m" by simp
  moreover have "?a ! (perm ! m) < length perm"
    using i argsort_props(2) [of perm] by (metis atLeastLessThan_iff nth_mem)
  ultimately have "?a ! (perm ! m) = m"
    using assms(1,3) by (simp add: nth_eq_iff_index_eq)
  with position_nth [OF argsort_props(3) i] show ?thesis by simp
qed

lemma argsort_is_axes_perm:
  "is_axes_perm (argsort perm) (length perm)"
  by (auto simp: is_axes_perm_def argsort_props list_all_iff)

subsection \<open>Helper facts: transposition and tensordot on qubit arrays\<close>

lemma prod_list_replicate_two [simp]: "prod_list (replicate m (2::nat)) = 2 ^ m"
  by (induction m) simp_all

lemma map_nth_replicate:
  "\<forall>ax \<in> set axes. ax < n \<Longrightarrow> map (\<lambda>ax. replicate n (c::nat) ! ax) axes = replicate (length axes) c"
  by (induction axes) simp_all

lemma position_upt: "m < n \<Longrightarrow> position m [0..<n] = m"
  using position_nth [of "[0..<n]" m] by simp

lemma transpose_nd_result:
  assumes "is_axes_perm axes (length (shape a))"
  shows "transpose_nd a axes =
    Inr \<lparr>shape = map (\<lambda>ax. shape a ! ax) axes,
         ndarray.data = map (\<lambda>p. ndarray.data a ! ravel (shape a)
                       (map (\<lambda>m. unravel (map (\<lambda>ax. shape a ! ax) axes) p ! position m axes)
                          [0..<length axes]))
                  [0..<prod_list (map (\<lambda>ax. shape a ! ax) axes)]\<rparr>"
  using assms by (simp add: transpose_nd_def Let_def)

lemma transpose_nd_identity:
  assumes "length (ndarray.data a) = prod_list (shape a)"
  shows "transpose_nd a [0..<length (shape a)] = Inr a"
proof -
  let ?s = "shape a" and ?nd = "length (shape a)"
  have perm: "is_axes_perm [0..<?nd] ?nd" by (simp add: is_axes_perm_def list_all_iff)
  have s: "map (\<lambda>ax. ?s ! ax) [0..<?nd] = ?s" by (rule map_nth)
  have idx: "map (\<lambda>m. unravel ?s p ! position m [0..<?nd]) [0..<?nd] = unravel ?s p" for p
  proof -
    have "map (\<lambda>m. unravel ?s p ! position m [0..<?nd]) [0..<?nd]
          = map (\<lambda>m. unravel ?s p ! m) [0..<length (unravel ?s p)]"
      by (simp add: position_upt)
    then show ?thesis by (simp only: map_nth)
  qed
  have "map (\<lambda>p. ndarray.data a ! ravel ?s (map (\<lambda>m. unravel ?s p ! position m [0..<?nd]) [0..<?nd]))
          [0..<prod_list ?s] = map (\<lambda>p. ndarray.data a ! p) [0..<length (ndarray.data a)]"
    unfolding idx assms by (simp add: ravel_unravel)
  also have "\<dots> = ndarray.data a" by (rule map_nth)
  finally show ?thesis
    unfolding transpose_nd_result [OF perm] s by (simp add: s)
qed

lemma qubit_perm:
  assumes "distinct t" and "\<forall>q \<in> set t. q < n"
  shows "distinct (t @ filter (\<lambda>idx. idx \<notin> set t) [0..<n])"
    and "set (t @ filter (\<lambda>idx. idx \<notin> set t) [0..<n]) = {0..<n}"
    and "length (t @ filter (\<lambda>idx. idx \<notin> set t) [0..<n]) = n"
    and "length (filter (\<lambda>idx. idx \<notin> set t) [0..<n]) = n - length t"
proof -
  let ?u = "filter (\<lambda>idx. idx \<notin> set t) [0..<n]"
  show d: "distinct (t @ ?u)" using assms(1) by auto
  show s: "set (t @ ?u) = {0..<n}" using assms(2) by auto
  from d have "length (t @ ?u) = card (set (t @ ?u))" by (simp only: distinct_card)
  with s show l: "length (t @ ?u) = n" by simp
  then show "length ?u = n - length t" by simp
qed

lemma filter_bra_axes:
  "filter (\<lambda>i. i \<notin> set [k..<2 * k]) [0..<k * 2] = [0..<k]"
proof -
  have split: "[0..<k + k] = [0..<k] @ [k..<k + k]" by (rule upt_add_eq_append) simp
  have a: "filter (\<lambda>i. i \<notin> set [k..<k + k]) [0..<k] = [0..<k]"
    unfolding filter_id_conv by simp
  have b: "filter (\<lambda>i. i \<notin> set [k..<k + k]) [k..<k + k] = []"
    unfolding filter_empty_conv by simp
  have "filter (\<lambda>i. i \<notin> set [k..<k + k]) [0..<k + k] = [0..<k]"
    unfolding split filter_append a b by simp
  then show ?thesis by (simp only: mult_2 mult_2_right)
qed

lemma tensordot_qubits:
  fixes a b :: "'a::comm_semiring_1 ndarray"
  assumes sa: "shape a = replicate (k * 2) 2" and la: "length (ndarray.data a) = 2 ^ (k * 2)"
    and sb: "shape b = replicate n 2" and lb: "length (ndarray.data b) = 2 ^ n"
    and dt: "distinct t" and bt: "\<forall>q \<in> set t. q < n" and lt: "length t = k"
  shows "tensordot a b [k..<2 * k] t =
    Inr \<lparr>shape = replicate k 2 @ replicate (n - k) 2,
         data = map (\<lambda>p. sum_list (map (\<lambda>j.
                    ndarray.data a ! ((p div 2 ^ (n - k)) * 2 ^ k + j) *
                    map (\<lambda>q. ndarray.data b ! ravel (replicate n 2)
                           (map (\<lambda>m. unravel (replicate n 2) q !
                                   position m (t @ filter (\<lambda>idx. idx \<notin> set t) [0..<n]))
                              [0..<n]))
                        [0..<2 ^ n] ! (j * 2 ^ (n - k) + p mod 2 ^ (n - k)))
                  [0..<2 ^ k]))
                [0..<2 ^ k * 2 ^ (n - k)]\<rparr>"
proof -
  let ?u = "filter (\<lambda>idx. idx \<notin> set t) [0..<n]"
  note perm = qubit_perm [OF dt bt]
  from perm(3) lt have kn: "k \<le> n" by simp
  then have pw: "(2::nat) ^ k * 2 ^ (n - k) = 2 ^ n" by (simp add: power_add [symmetric])
  have pw2: "(2::nat) ^ k * 2 ^ k = 2 ^ (k * 2)" by (simp add: power_add [symmetric] mult_2_right)
  have c1: "length [k..<2 * k] = length t" using lt by simp
  have c2: "list_all (\<lambda>ax. ax < length (shape a)) [k..<2 * k]" by (simp add: sa list_all_iff)
  have c3: "list_all (\<lambda>ax. ax < length (shape b)) t" using bt by (simp add: sb list_all_iff)
  have ma: "map (\<lambda>ax. shape a ! ax) [k..<2 * k] = replicate k 2"
    unfolding sa by (subst map_nth_replicate) simp_all
  have mb: "map (\<lambda>ax. shape b ! ax) t = replicate k 2"
    unfolding sb using bt lt by (subst map_nth_replicate) simp_all
  have na: "filter (\<lambda>i. i \<notin> set [k..<2 * k]) [0..<length (shape a)] = [0..<k]"
    unfolding sa by (simp only: length_replicate filter_bra_axes)
  have newa: "[0..<k] @ [k..<2 * k] = [0..<length (shape a)]"
    unfolding sa using upt_add_eq_append [of 0 k k] by (simp add: mult_2 mult_2_right)
  have olda: "map (\<lambda>ax. shape a ! ax) [0..<k] = replicate k 2"
    unfolding sa by (subst map_nth_replicate) simp_all
  have oldb: "map (\<lambda>ax. shape b ! ax) ?u = replicate (n - k) 2"
    unfolding sb using perm(4) lt by (subst map_nth_replicate) simp_all
  have ta: "transpose_nd a [0..<length (shape a)] = Inr a"
    by (rule transpose_nd_identity) (simp add: la sa)
  have ra: "reshape a [2 ^ k, 2 ^ k] = Inr (a\<lparr>shape := [2 ^ k, 2 ^ k]\<rparr>)"
    by (simp add: reshape_def la pw2)
  have pb: "is_axes_perm (t @ ?u) (length (shape b))"
    unfolding is_axes_perm_def sb using perm by (simp add: list_all_iff)
  have mtu: "map (\<lambda>ax. shape b ! ax) (t @ ?u) = replicate n 2"
    using mb oldb lt kn by (simp add: replicate_add [symmetric])
  have ltu: "length (t @ ?u) = n" by (rule perm(3))
  let ?B = "map (\<lambda>q. ndarray.data b ! ravel (replicate n 2)
                           (map (\<lambda>m. unravel (replicate n 2) q ! position m (t @ ?u)) [0..<n]))
                        [0..<2 ^ n]"
  have tb: "transpose_nd b (t @ ?u) = Inr \<lparr>shape = replicate n 2, data = ?B\<rparr>"
    unfolding transpose_nd_result [OF pb] mtu ltu by (simp add: sb)
  have rb: "reshape \<lparr>shape = replicate n 2, data = ?B\<rparr> [2 ^ k, 2 ^ (n - k)]
            = Inr \<lparr>shape = [2 ^ k, 2 ^ (n - k)], data = ?B\<rparr>"
    by (simp add: reshape_def pw)
  let ?R = "map (\<lambda>p. sum_list (map (\<lambda>j.
                    ndarray.data a ! ((p div 2 ^ (n - k)) * 2 ^ k + j) *
                    ?B ! (j * 2 ^ (n - k) + p mod 2 ^ (n - k)))
                  [0..<2 ^ k]))
                [0..<2 ^ k * 2 ^ (n - k)]"
  have d: "dot (a\<lparr>shape := [2 ^ k, 2 ^ k]\<rparr>) \<lparr>shape = [2 ^ k, 2 ^ (n - k)], data = ?B\<rparr>
           = Inr \<lparr>shape = [2 ^ k, 2 ^ (n - k)], data = ?R\<rparr>"
    by (simp add: dot_def Let_def)
  have rr: "reshape \<lparr>shape = [2 ^ k, 2 ^ (n - k)], data = ?R\<rparr> (replicate k 2 @ replicate (n - k) 2)
            = Inr \<lparr>shape = replicate k 2 @ replicate (n - k) 2, data = ?R\<rparr>"
    by (simp add: reshape_def)
  have cond: "\<not> (length [k..<2 * k] \<noteq> length t
         \<or> \<not> list_all (\<lambda>ax. ax < length (shape a)) [k..<2 * k]
         \<or> \<not> list_all (\<lambda>ax. ax < length (shape b)) t
         \<or> map (\<lambda>ax. shape a ! ax) [k..<2 * k] \<noteq> map (\<lambda>ax. shape b ! ax) t)"
    using c1 c2 c3 ma mb by simp
  have lenb: "length (shape b) = n" by (simp add: sb)
  show ?thesis
    apply (simp only: tensordot_def Let_def)
    apply (subst if_not_P [OF cond])
    apply (simp only: lenb na newa olda oldb ma mb ta and_then_Inr prod_list_replicate_two ra tb rb d rr)
    done
qed

subsection \<open>Helper facts: the bits of the target qubits\<close>

lemma position_append_in: "m \<in> set t \<Longrightarrow> position m (t @ u) = position m t"
  by (induction t) auto

lemma position_append_notin: "m \<notin> set t \<Longrightarrow> position m (t @ u) = length t + position m u"
  by (induction t) auto

lemma bits_valid:
  "list_all2 (<) x (replicate n (2::nat)) = (length x = n \<and> (\<forall>i < n. x ! i < 2))"
  by (auto simp: list_all2_conv_all_nth)

lemma unravel_bits: "p < 2 ^ n \<Longrightarrow> list_all2 (<) (unravel (replicate n 2) p) (replicate n 2)"
  by (rule unravel_in_bounds) simp

lemma target_bits_valid:
  assumes "list_all2 (<) x (replicate n (2::nat))" and "\<forall>q \<in> set t. q < n"
  shows "list_all2 (<) (map (\<lambda>q. x ! q) t) (replicate (length t) (2::nat))"
  using assms by (simp add: bits_valid)

lemma with_target_bits_eq:
  assumes dt: "distinct t" and bt: "\<forall>q \<in> set t. q < n" and lb: "length bs = length t"
  shows "map (\<lambda>m. (bs @ map (\<lambda>q. x ! q) (filter (\<lambda>idx. idx \<notin> set t) [0..<n])) !
                   position m (t @ filter (\<lambda>idx. idx \<notin> set t) [0..<n])) [0..<n]
         = with_target_bits n t x bs"
  unfolding with_target_bits_def
proof (rule map_cong [OF refl])
  let ?u = "filter (\<lambda>idx. idx \<notin> set t) [0..<n]"
  fix m assume "m \<in> set [0..<n]"
  then have mn: "m < n" by simp
  show "(bs @ map (\<lambda>q. x ! q) ?u) ! position m (t @ ?u)
        = (if m \<in> set t then bs ! position m t else x ! m)"
  proof (cases "m \<in> set t")
    case True
    then have "position m t < length bs" using lb by (simp add: position_less)
    with True show ?thesis by (simp add: position_append_in nth_append)
  next
    case False
    with mn have mu: "m \<in> set ?u" by simp
    then have pl: "position m ?u < length ?u" by (rule position_less)
    have "(bs @ map (\<lambda>q. x ! q) ?u) ! position m (t @ ?u)
          = map (\<lambda>q. x ! q) ?u ! position m ?u"
      using False lb by (simp add: position_append_notin nth_append)
    also have "\<dots> = x ! (?u ! position m ?u)" using pl by (rule nth_map)
    also have "\<dots> = x ! m" using nth_position [OF mu] by simp
    finally show ?thesis using False by simp
  qed
qed

lemma with_target_bits_valid:
  assumes "list_all2 (<) x (replicate n (2::nat))"
    and "list_all2 (<) bs (replicate (length t) (2::nat))"
  shows "list_all2 (<) (with_target_bits n t x bs) (replicate n (2::nat))"
  using assms
  by (auto simp: bits_valid with_target_bits_def position_less)

lemma target_bits_with_target_bits:
  assumes "distinct t" and "\<forall>q \<in> set t. q < n" and "length bs = length t"
  shows "target_bits t (with_target_bits n t x bs) = bs"
proof (rule nth_equalityI)
  show "length (target_bits t (with_target_bits n t x bs)) = length bs"
    using assms by (simp add: target_bits_def)
next
  fix i assume "i < length (target_bits t (with_target_bits n t x bs))"
  then have i: "i < length t" by (simp add: target_bits_def)
  then have "t ! i < n" "t ! i \<in> set t" using assms(2) by simp_all
  then show "target_bits t (with_target_bits n t x bs) ! i = bs ! i"
    using i assms(1) by (simp add: target_bits_def with_target_bits_def position_nth)
qed

lemma with_target_bits_twice:
  "with_target_bits n t (with_target_bits n t x bs) cs = with_target_bits n t x cs"
  by (simp add: with_target_bits_def)

lemma with_target_bits_same:
  assumes "length x = n"
  shows "with_target_bits n t x (target_bits t x) = x"
proof (rule nth_equalityI)
  show "length (with_target_bits n t x (target_bits t x)) = length x"
    using assms by (simp add: with_target_bits_def)
next
  fix i assume "i < length (with_target_bits n t x (target_bits t x))"
  then have i: "i < n" by (simp add: with_target_bits_def)
  show "with_target_bits n t x (target_bits t x) ! i = x ! i"
  proof (cases "i \<in> set t")
    case True
    then show ?thesis
      using i by (simp add: with_target_bits_def target_bits_def position_less nth_position)
  next
    case False
    then show ?thesis using i by (simp add: with_target_bits_def)
  qed
qed

subsection \<open>\<open>mat_vec_product\<close> computes the contraction\<close>

lemma contraction_entry:
  fixes A V :: "'a::comm_semiring_1 list"
  assumes dt: "distinct t" and bt: "\<forall>q \<in> set t. q < n" and p: "p < 2 ^ n"
  shows
   "map (\<lambda>p. sum_list (map (\<lambda>j.
        A ! ((p div 2 ^ (n - length t)) * 2 ^ length t + j) *
        map (\<lambda>q. V ! ravel (replicate n 2)
               (map (\<lambda>m. unravel (replicate n 2) q !
                       position m (t @ filter (\<lambda>idx. idx \<notin> set t) [0..<n])) [0..<n]))
            [0..<2 ^ n] ! (j * 2 ^ (n - length t) + p mod 2 ^ (n - length t)))
        [0..<2 ^ length t]))
      [0..<2 ^ length t * 2 ^ (n - length t)]
    ! ravel (replicate n 2)
        (map (\<lambda>m. unravel (replicate n 2) p !
              position m (argsort (t @ filter (\<lambda>idx. idx \<notin> set t) [0..<n]))) [0..<n])
    = sum_list (map (\<lambda>j.
        A ! (ravel (replicate (length t) 2) (target_bits t (unravel (replicate n 2) p))
               * 2 ^ length t + j) *
        V ! ravel (replicate n 2)
              (with_target_bits n t (unravel (replicate n 2) p)
                 (unravel (replicate (length t) 2) j)))
        [0..<2 ^ length t])"
proof -
  let ?k = "length t"
  let ?u = "filter (\<lambda>idx. idx \<notin> set t) [0..<n]"
  let ?perm = "t @ ?u"
  let ?x = "unravel (replicate n 2) p"
  let ?K = "(2::nat) ^ ?k" and ?C = "(2::nat) ^ (n - ?k)"
  let ?row = "ravel (replicate ?k 2) (map (\<lambda>q. ?x ! q) t)"
  let ?cidx = "ravel (replicate (n - ?k) 2) (map (\<lambda>q. ?x ! q) ?u)"
  note perm = qubit_perm [OF dt bt]
  from perm(3) have kn: "?k \<le> n" by simp
  then have pw: "?K * ?C = 2 ^ n" by (simp add: power_add [symmetric])
  have rep: "replicate n (2::nat) = replicate ?k 2 @ replicate (n - ?k) 2"
    using kn by (simp add: replicate_add [symmetric])
  have xv: "list_all2 (<) ?x (replicate n 2)" using p by (rule unravel_bits)
  have tv: "list_all2 (<) (map (\<lambda>q. ?x ! q) t) (replicate ?k 2)"
    using xv bt by (rule target_bits_valid)
  have uv: "list_all2 (<) (map (\<lambda>q. ?x ! q) ?u) (replicate (n - ?k) 2)"
    using target_bits_valid [OF xv, of ?u] perm(4) by simp
  have row: "?row < ?K" using ravel_less [OF tv] by simp
  have cidx: "?cidx < ?C" using ravel_less [OF uv] by simp
  have lperm: "length ?perm = n" by (rule perm(3))
  have sperm: "set ?perm = {0..<length ?perm}" using perm(2) lperm by simp
  \<comment> \<open>the multi-index the last transposition reads\<close>
  have "map (\<lambda>m. ?x ! position m (argsort ?perm)) [0..<n]
        = map (\<lambda>m. ?x ! (?perm ! m)) [0..<n]"
    using position_argsort [OF perm(1) sperm] lperm by (intro map_cong [OF refl]) simp
  also have "\<dots> = map (\<lambda>q. ?x ! q) (map (\<lambda>m. ?perm ! m) [0..<length ?perm])"
    by (simp only: lperm map_map o_def)
  also have "\<dots> = map (\<lambda>q. ?x ! q) ?perm" by (simp only: map_nth)
  finally have idx: "map (\<lambda>m. ?x ! position m (argsort ?perm)) [0..<n]
        = map (\<lambda>q. ?x ! q) t @ map (\<lambda>q. ?x ! q) ?u" by simp
  have flat: "ravel (replicate n 2) (map (\<lambda>q. ?x ! q) t @ map (\<lambda>q. ?x ! q) ?u)
        = ?row * ?C + ?cidx"
    by (subst rep, subst ravel_append) simp_all
  have bound: "?row * ?C + ?cidx < ?K * ?C"
  proof -
    have "?row * ?C + ?cidx < ?row * ?C + ?C" using cidx by simp
    also have "\<dots> = Suc ?row * ?C" by simp
    also have "\<dots> \<le> ?K * ?C" using row by (intro mult_le_mono1) simp
    finally show ?thesis .
  qed
  have dv: "(?row * ?C + ?cidx) div ?C = ?row" and md: "(?row * ?C + ?cidx) mod ?C = ?cidx"
    using cidx by simp_all
  \<comment> \<open>an entry of the transposed state\<close>
  have entry: "map (\<lambda>q. V ! ravel (replicate n 2)
               (map (\<lambda>m. unravel (replicate n 2) q ! position m ?perm) [0..<n]))
            [0..<2 ^ n] ! (j * ?C + ?cidx)
        = V ! ravel (replicate n 2) (with_target_bits n t ?x (unravel (replicate ?k 2) j))"
    if j: "j < ?K" for j
  proof -
    have jv: "list_all2 (<) (unravel (replicate ?k 2) j) (replicate ?k 2)"
      using j by (rule unravel_bits)
    have b: "j * ?C + ?cidx < 2 ^ n"
    proof -
      have "j * ?C + ?cidx < j * ?C + ?C" using cidx by simp
      also have "\<dots> = Suc j * ?C" by simp
      also have "\<dots> \<le> ?K * ?C" using j by (intro mult_le_mono1) simp
      finally show ?thesis by (simp only: pw)
    qed
    have "ravel (replicate n 2) (unravel (replicate ?k 2) j @ map (\<lambda>q. ?x ! q) ?u)
          = ravel (replicate ?k 2) (unravel (replicate ?k 2) j) * ?C + ?cidx"
      by (subst rep, subst ravel_append) simp_all
    also have "\<dots> = j * ?C + ?cidx" using j by (simp add: ravel_unravel)
    finally have r: "j * ?C + ?cidx
          = ravel (replicate n 2) (unravel (replicate ?k 2) j @ map (\<lambda>q. ?x ! q) ?u)" by simp
    have v: "list_all2 (<) (unravel (replicate ?k 2) j @ map (\<lambda>q. ?x ! q) ?u) (replicate n 2)"
      by (subst rep) (rule list_all2_appendI [OF jv uv])
    have un: "unravel (replicate n 2) (j * ?C + ?cidx)
          = unravel (replicate ?k 2) j @ map (\<lambda>q. ?x ! q) ?u"
      by (subst r) (rule unravel_ravel [OF v])
    have "map (\<lambda>q. V ! ravel (replicate n 2)
               (map (\<lambda>m. unravel (replicate n 2) q ! position m ?perm) [0..<n]))
            [0..<2 ^ n] ! (j * ?C + ?cidx)
          = V ! ravel (replicate n 2)
               (map (\<lambda>m. unravel (replicate n 2) (j * ?C + ?cidx) ! position m ?perm) [0..<n])"
      using b by simp
    also have "\<dots> = V ! ravel (replicate n 2)
               (map (\<lambda>m. (unravel (replicate ?k 2) j @ map (\<lambda>q. ?x ! q) ?u) ! position m ?perm)
                  [0..<n])"
      by (simp only: un)
    also have "\<dots> = V ! ravel (replicate n 2) (with_target_bits n t ?x (unravel (replicate ?k 2) j))"
      by (subst with_target_bits_eq [OF dt bt]) simp_all
    finally show ?thesis .
  qed
  have "map (\<lambda>p. sum_list (map (\<lambda>j.
        A ! ((p div ?C) * ?K + j) *
        map (\<lambda>q. V ! ravel (replicate n 2)
               (map (\<lambda>m. unravel (replicate n 2) q ! position m ?perm) [0..<n]))
            [0..<2 ^ n] ! (j * ?C + p mod ?C))
        [0..<?K]))
      [0..<?K * ?C]
    ! ravel (replicate n 2) (map (\<lambda>m. ?x ! position m (argsort ?perm)) [0..<n])
    = sum_list (map (\<lambda>j.
        A ! (?row * ?K + j) *
        map (\<lambda>q. V ! ravel (replicate n 2)
               (map (\<lambda>m. unravel (replicate n 2) q ! position m ?perm) [0..<n]))
            [0..<2 ^ n] ! (j * ?C + ?cidx))
        [0..<?K])"
    unfolding idx flat using bound by (simp only: nth_map length_upt diff_zero nth_upt add_0 dv md)
  also have "\<dots> = sum_list (map (\<lambda>j.
        A ! (?row * ?K + j) *
        V ! ravel (replicate n 2) (with_target_bits n t ?x (unravel (replicate ?k 2) j)))
        [0..<?K])"
    by (rule arg_cong [where f = sum_list], rule map_cong [OF refl]) (simp add: entry)
  finally show ?thesis by (simp only: target_bits_def)
qed

lemma mat_vec_product_contract:
  fixes mat vec :: "'a::comm_semiring_1 ndarray"
  assumes sm: "shape mat = [2 ^ length t, 2 ^ length t]"
    and lm: "length (ndarray.data mat) = 2 ^ (length t * 2)"
    and lv: "length (ndarray.data vec) = 2 ^ n"
    and dt: "distinct t" and bt: "\<forall>q \<in> set t. q < n"
  shows "mat_vec_product n mat vec t
         = Inr \<lparr>shape = [2 ^ n], data = contract n (ndarray.data mat) (ndarray.data vec) t\<rparr>"
proof -
  let ?k = "length t"
  let ?u = "filter (\<lambda>idx. idx \<notin> set t) [0..<n]"
  let ?perm = "t @ ?u"
  note perm = qubit_perm [OF dt bt]
  from perm(3) have kn: "?k \<le> n" by simp
  have rep: "replicate ?k (2::nat) @ replicate (n - ?k) 2 = replicate n 2"
    using kn by (simp add: replicate_add [symmetric])
  have pw: "(2::nat) ^ ?k * 2 ^ (n - ?k) = 2 ^ n" using kn by (simp add: power_add [symmetric])
  let ?mat' = "mat\<lparr>shape := replicate (?k * 2) 2\<rparr>"
  let ?vec' = "vec\<lparr>shape := replicate n 2\<rparr>"
  have r1: "reshape mat (replicate (?k * 2) 2) = Inr ?mat'" by (simp add: reshape_def lm)
  have r2: "reshape vec (replicate n 2) = Inr ?vec'" by (simp add: reshape_def lv)
  let ?R = "map (\<lambda>p. sum_list (map (\<lambda>j.
                    ndarray.data mat ! ((p div 2 ^ (n - ?k)) * 2 ^ ?k + j) *
                    map (\<lambda>q. ndarray.data vec ! ravel (replicate n 2)
                           (map (\<lambda>m. unravel (replicate n 2) q ! position m ?perm) [0..<n]))
                        [0..<2 ^ n] ! (j * 2 ^ (n - ?k) + p mod 2 ^ (n - ?k)))
                  [0..<2 ^ ?k]))
                [0..<2 ^ ?k * 2 ^ (n - ?k)]"
  have td: "tensordot ?mat' ?vec' [?k..<2 * ?k] t = Inr \<lparr>shape = replicate n 2, data = ?R\<rparr>"
    using tensordot_qubits [of ?mat' ?k ?vec' n t] lm lv dt bt by (simp add: rep)
  have lR: "length ?R = 2 ^ n" by (simp add: pw)
  let ?F = "map (\<lambda>p. ?R ! ravel (replicate n 2)
                 (map (\<lambda>m. unravel (replicate n 2) p ! position m (argsort ?perm)) [0..<n]))
              [0..<2 ^ n]"
  have ip: "is_axes_perm (argsort ?perm) (length (shape \<lparr>shape = replicate n 2, data = ?R\<rparr>))"
    using argsort_is_axes_perm [of ?perm] perm(3) by simp
  have ms: "map (\<lambda>ax. replicate n (2::nat) ! ax) (argsort ?perm) = replicate n 2"
    using argsort_props(1,2) [of ?perm] perm(3) by (subst map_nth_replicate) simp_all
  have tr: "transpose_nd \<lparr>shape = replicate n 2, data = ?R\<rparr> (argsort ?perm)
            = Inr \<lparr>shape = replicate n 2, data = ?F\<rparr>"
    unfolding transpose_nd_result [OF ip]
    using ms argsort_props(1) [of ?perm] perm(3) by simp
  have r3: "reshape \<lparr>shape = replicate n 2, data = ?F\<rparr> [2 ^ n] = Inr \<lparr>shape = [2 ^ n], data = ?F\<rparr>"
    by (simp add: reshape_def)
  have F: "?F = contract n (ndarray.data mat) (ndarray.data vec) t"
    unfolding contract_def
    by (rule map_cong [OF refl]) (simp add: contraction_entry [OF dt bt])
  show ?thesis
    unfolding mat_vec_product_def Let_def
    by (simp only: sm r1 r2 td tr [unfolded F] r3 [unfolded F] and_then_Inr if_False simp_thms)
qed

lemma length_contract [simp]: "length (contract n m v t) = 2 ^ n"
  by (simp add: contract_def)

lemma sum_list_upt: "sum_list (map f [0..<n]) = (\<Sum>i<n. f i)"
  by (simp add: interv_sum_list_conv_sum_set_nat lessThan_atLeast0)

lemma contract_round_trip:
  fixes a b v :: "'a::comm_semiring_1 list"
  assumes inv: "left_inverse (length t) a b" and lv: "length v = 2 ^ n"
    and dt: "distinct t" and bt: "\<forall>q \<in> set t. q < n"
  shows "contract n a (contract n b v t) t = v"
proof (rule nth_equalityI)
  show "length (contract n a (contract n b v t) t) = length v" by (simp add: lv)
next
  fix p assume "p < length (contract n a (contract n b v t) t)"
  then have p: "p < 2 ^ n" by simp
  let ?k = "length t" and ?K = "(2::nat) ^ length t"
  let ?x = "unravel (replicate n 2) p"
  let ?row = "ravel (replicate ?k 2) (target_bits t ?x)"
  let ?w = "\<lambda>j. with_target_bits n t ?x (unravel (replicate ?k 2) j)"
  have xv: "list_all2 (<) ?x (replicate n 2)" using p by (rule unravel_bits)
  have tv: "list_all2 (<) (target_bits t ?x) (replicate ?k 2)"
    unfolding target_bits_def using xv bt by (rule target_bits_valid)
  have row: "?row < ?K" using ravel_less [OF tv] by simp
  have inner: "contract n b v t ! ravel (replicate n 2) (?w j)
        = (\<Sum>l<?K. b ! (j * ?K + l) * v ! ravel (replicate n 2) (?w l))" if j: "j < ?K" for j
  proof -
    have jv: "list_all2 (<) (unravel (replicate ?k 2) j) (replicate ?k 2)"
      using j by (rule unravel_bits)
    have wv: "list_all2 (<) (?w j) (replicate n 2)"
      using xv jv by (rule with_target_bits_valid)
    then have q: "ravel (replicate n 2) (?w j) < 2 ^ n" using ravel_less by fastforce
    have un: "unravel (replicate n 2) (ravel (replicate n 2) (?w j)) = ?w j"
      using wv by (rule unravel_ravel)
    have tb: "target_bits t (?w j) = unravel (replicate ?k 2) j"
      by (rule target_bits_with_target_bits [OF dt bt]) simp
    have rj: "ravel (replicate ?k 2) (unravel (replicate ?k 2) j) = j"
      using j by (simp add: ravel_unravel)
    show ?thesis
      unfolding contract_def using q
      by (simp only: nth_map length_upt diff_zero nth_upt add_0 un tb rj with_target_bits_twice
          sum_list_upt)
  qed
  have delta: "(\<Sum>j<?K. a ! (?row * ?K + j) * b ! (j * ?K + l)) = (if ?row = l then 1 else 0)"
    if l: "l < ?K" for l
    using inv row l unfolding left_inverse_def list_all_iff by (simp add: sum_list_upt)
  have "contract n a (contract n b v t) t ! p
        = (\<Sum>j<?K. a ! (?row * ?K + j) * contract n b v t ! ravel (replicate n 2) (?w j))"
    unfolding contract_def [of n a] using p
    by (simp only: nth_map length_upt diff_zero nth_upt add_0 sum_list_upt)
  also have "\<dots> = (\<Sum>j<?K. a ! (?row * ?K + j) *
                      (\<Sum>l<?K. b ! (j * ?K + l) * v ! ravel (replicate n 2) (?w l)))"
    by (rule sum.cong [OF refl]) (simp add: inner)
  also have "\<dots> = (\<Sum>j<?K. \<Sum>l<?K. (a ! (?row * ?K + j) * b ! (j * ?K + l)) *
                      v ! ravel (replicate n 2) (?w l))"
    by (simp add: sum_distrib_left mult.assoc)
  also have "\<dots> = (\<Sum>l<?K. \<Sum>j<?K. (a ! (?row * ?K + j) * b ! (j * ?K + l)) *
                      v ! ravel (replicate n 2) (?w l))"
    by (rule sum.swap)
  also have "\<dots> = (\<Sum>l<?K. (\<Sum>j<?K. a ! (?row * ?K + j) * b ! (j * ?K + l)) *
                      v ! ravel (replicate n 2) (?w l))"
    by (simp add: sum_distrib_right)
  also have "\<dots> = (\<Sum>l<?K. (if ?row = l then 1 else 0) * v ! ravel (replicate n 2) (?w l))"
    by (rule sum.cong [OF refl]) (simp add: delta)
  also have "\<dots> = (\<Sum>l<?K. if l = ?row then v ! ravel (replicate n 2) (?w l) else 0)"
    by (rule sum.cong [OF refl]) simp
  also have "\<dots> = v ! ravel (replicate n 2) (?w ?row)"
    using row by (simp add: sum.delta)
  also have "?w ?row = ?x"
  proof -
    have "unravel (replicate ?k 2) ?row = target_bits t ?x" using tv by (rule unravel_ravel)
    moreover have "length ?x = n" by simp
    ultimately show ?thesis by (simp add: with_target_bits_same)
  qed
  also have "ravel (replicate n 2) ?x = p" using p by (simp add: ravel_unravel)
  finally show "contract n a (contract n b v t) t ! p = v ! p" .
qed

subsection \<open>Applying a matrix and then its inverse\<close>



subsection \<open>Sample extraction\<close>

text \<open>
  Claim C9. \<open>extract_samples\<close> (of \<open>QuantumComputerDevice\<close> and of \<open>QVMDevice\<close>)
  returns the empty sequence when the readout data has no register \<open>ro\<close>, and the
  contents of \<open>ro\<close> when it has one; it returns a value in both cases.
\<close>

theorem extract_samples_ro:
  "(map_of (readout_data r) ''ro'' = None \<longrightarrow>
      extract_samples r = [] \<and> qvm_extract_samples r = [])
   \<and> (\<forall>v. map_of (readout_data r) ''ro'' = Some v \<longrightarrow>
      extract_samples r = v \<and> qvm_extract_samples r = v)"
  by (simp add: extract_samples_def qvm_extract_samples_def dict_get_def)

theorem extract_samples_ro_witness:
  "extract_samples \<lparr>readout_data = [(''other'', [[1]])]\<rparr> = []
   \<and> qvm_extract_samples \<lparr>readout_data = []\<rparr> = []
   \<and> extract_samples \<lparr>readout_data = [(''other'', [[1]]), (''ro'', [[0, 1], [1, 1]])]\<rparr>
       = [[0, 1], [1, 1]]
   \<and> qvm_extract_samples \<lparr>readout_data = [(''ro'', [[0, 1], [1, 1]])]\<rparr> = [[0, 1], [1, 1]]"
  using extract_samples_ro [of "\<lparr>readout_data = [(''other'', [[1]])]\<rparr>"]
        extract_samples_ro [of "\<lparr>readout_data = []\<rparr>"]
        extract_samples_ro [of "\<lparr>readout_data = [(''other'', [[1]]), (''ro'', [[0, 1], [1, 1]])]\<rparr>"]
        extract_samples_ro [of "\<lparr>readout_data = [(''ro'', [[0, 1], [1, 1]])]\<rparr>"]
  by simp

subsection \<open>Construction of a \<open>QVMDevice\<close> without shots\<close>

text \<open>
  Claim C10. \<open>QVMDevice.__init__\<close> with \<open>shots=None\<close> raises the \<open>ValueError\<close>
  "QVM device cannot be used for analytic computations." whatever the superclass's
  constructor would do, and without any contact with a machine; so no \<open>QVMDevice\<close> is
  ever constructed with \<open>shots=None\<close>.
\<close>

theorem qvm_init_shots_none:
  "qvm_init super_init d w None noisy kw
     = ([], Inl (ValueError ''QVM device cannot be used for analytic computations.''))
   \<and> (\<forall>contacts q. qvm_init super_init d w shots noisy kw = (contacts, Inr q) \<longrightarrow> shots \<noteq> None)"
  by (auto simp: qvm_init_def)

theorem qvm_init_shots_none_witness:
  "qvm_init (\<lambda>d w s n a k. ([d], Inr (d, s))) ''2q-qvm'' () None False ()
     = ([], Inl (ValueError ''QVM device cannot be used for analytic computations.''))
   \<and> qvm_init (\<lambda>d w s n a k. ([d], Inr (d, s))) ''2q-qvm'' () (Some (1000::int)) False ()
     = ([''2q-qvm''], Inr (''2q-qvm'', Some 1000))
   \<and> Some (1000::int) \<noteq> None"
  using qvm_init_shots_none
    [of "\<lambda>d w s n a k. ([d], Inr (d, s))" "''2q-qvm''" "()" False "()" "Some (1000::int)"]
  by (simp add: qvm_init_def)

end
